theory Spec2Isabelle
  imports Main "HOL-Library.Sublist"
begin

section \<open>Data model of \<open>src/App.tsx\<close>\<close>

text \<open>
  The \<open>Note\<close> interface (lines 5--22). A field declared with \<open>?\<close> may be
  \<open>undefined\<close>, which is \<open>None\<close> here. \<open>lastModified\<close> is the time value of the
  \<open>Date\<close> in milliseconds; \<open>version\<close> is a JavaScript number that the program only
  ever creates as \<open>1\<close> and increments, modelled as an unbounded integer. Strings are
  lists of characters. The field \<open>id\<close> is called \<open>note_id\<close>, and the record
  \<open>Note\<close> keeps the capital of the interface's name.
\<close>

record format =
  bold :: "bool list"
  italic :: "bool list"
  underline :: "bool list"

record Note =
  note_id :: string
  title :: string
  content :: string
  lastModified :: int
  favorite :: "bool option"
  tags :: "string list"
  format :: format
  isLocked :: "bool option"
  password :: "string option"
  isArchived :: "bool option"
  version :: "int option"
  history :: "string list option"

datatype sort_option = Modified | Title | Created | Archived

datatype sort_direction = Asc | Desc

text \<open>
  The component's state (the \<open>useState\<close> cells of lines 25--62 that the operations
  read or write). The cell \<open>notes\<close> is the field \<open>noteList\<close>, and the cell
  \<open>password\<close> of line 60, the candidate password typed into the password box, is
  the field \<open>passwordInput\<close>.
\<close>

record app =
  noteList :: "Note list"
  activeNoteId :: string
  statusMessage :: string
  searchQuery :: string
  selectedTags :: "string list"
  sortOption :: sort_option
  sortDirection :: sort_direction
  passwordInput :: string
  undoStack :: "string list"
  redoStack :: "string list"

text \<open>
  Reading a property of \<open>undefined\<close> throws a \<open>TypeError\<close>; an operation that can do
  so returns \<open>error + app\<close>.
\<close>

datatype error = TypeError

section \<open>Helpers for JavaScript expressions\<close>

text \<open>Truthiness of an optional boolean: \<open>undefined\<close> and \<open>false\<close> are falsy.\<close>

definition truthy :: "bool option \<Rightarrow> bool" where
  "truthy b = (b = Some True)"

text \<open>\<open>note.version || 1\<close>: \<open>undefined\<close> and \<open>0\<close> are falsy.\<close>

definition versionOf :: "Note \<Rightarrow> int" where
  "versionOf n = (case version n of None \<Rightarrow> 1 | Some v \<Rightarrow> if v = 0 then 1 else v)"

text \<open>\<open>note.history || []\<close>.\<close>

definition historyOf :: "Note \<Rightarrow> string list" where
  "historyOf n = (case history n of None \<Rightarrow> [] | Some h \<Rightarrow> h)"

text \<open>\<open>content.split('\n')[0].slice(0, 50) || 'Untitled'\<close> (line 235).\<close>

definition titleOf :: "string \<Rightarrow> string" where
  "titleOf c =
     (let t = take 50 (takeWhile (\<lambda>ch. ch \<noteq> CHR 0x0A) c)
      in if t = [] then ''Untitled'' else t)"

text \<open>
  The query pipeline calls three built-ins of the JavaScript host:
  \<open>String.prototype.toLowerCase\<close>, \<open>String.prototype.localeCompare\<close> and
  \<open>parseInt\<close>. They are not code of this repository, and what they compute rests on
  the host's Unicode tables and locale, so they are parameters of the model. For
  \<open>parseInt\<close>, \<open>None\<close> is \<open>NaN\<close>.
\<close>

record host =
  toLowerCase :: "string \<Rightarrow> string"
  localeCompare :: "string \<Rightarrow> string \<Rightarrow> int"
  parseInt :: "string \<Rightarrow> int option"

text \<open>\<open>h.includes(n)\<close>: \<open>n\<close> occurs in \<open>h\<close> as a contiguous run.\<close>

definition str_includes :: "string \<Rightarrow> string \<Rightarrow> bool" where
  "str_includes h n = sublist n h"

text \<open>\<open>n.toString()\<close> of a non-negative integer.\<close>

fun toString :: "nat \<Rightarrow> string" where
  "toString n =
     (if n < 10 then [char_of (48 + n)]
      else toString (n div 10) @ [char_of (48 + n mod 10)])"

text \<open>
  \<open>xs.sort(cmp)\<close>: the language requires the sort to be stable, and with a
  consistent comparator that fixes the result; it is computed here by a stable
  insertion sort. \<open>cmp a b > 0\<close> puts \<open>a\<close> after \<open>b\<close>.
\<close>

fun insertBy :: "('a \<Rightarrow> 'a \<Rightarrow> int) \<Rightarrow> 'a \<Rightarrow> 'a list \<Rightarrow> 'a list" where
  "insertBy cmp x [] = [x]"
| "insertBy cmp x (y # ys) =
     (if cmp x y \<le> 0 then x # y # ys else y # insertBy cmp x ys)"

fun sortBy :: "('a \<Rightarrow> 'a \<Rightarrow> int) \<Rightarrow> 'a list \<Rightarrow> 'a list" where
  "sortBy cmp [] = []"
| "sortBy cmp (x # xs) = insertBy cmp x (sortBy cmp xs)"

section \<open>The operations\<close>

text \<open>
  \<open>showStatus\<close> (lines 329--332); the timer that clears the message two seconds
  later is not part of the model.
\<close>

definition showStatus :: "string \<Rightarrow> app \<Rightarrow> app" where
  "showStatus message st = st\<lparr>statusMessage := message\<rparr>"

text \<open>
  \<open>activeNote\<close> (line 117): \<open>notes.find(note => note.id === activeNoteId) || notes[0]\<close>,
  which is \<open>undefined\<close> for an empty collection.
\<close>

definition activeNote :: "app \<Rightarrow> Note option" where
  "activeNote st =
     (case find (\<lambda>n. note_id n = activeNoteId st) (noteList st) of
        Some n \<Rightarrow> Some n
      | None \<Rightarrow> (case noteList st of [] \<Rightarrow> None | n # _ \<Rightarrow> Some n))"

text \<open>
  \<open>updateNote\<close> (lines 224--243). \<open>now\<close> is the value of \<open>new Date()\<close>. The flag
  guards the two stack updates only; the map over the notes runs in either case.
\<close>

definition updatedNote :: "int \<Rightarrow> string \<Rightarrow> Note \<Rightarrow> Note" where
  "updatedNote now c n =
     n\<lparr>content := c,
       title := titleOf c,
       lastModified := now,
       version := Some (versionOf n + 1),
       history := Some (historyOf n @ [content n])\<rparr>"

definition updateNotes :: "int \<Rightarrow> string \<Rightarrow> app \<Rightarrow> app" where
  "updateNotes now c st =
     st\<lparr>noteList := map (\<lambda>n. if note_id n = activeNoteId st then updatedNote now c n else n)
                    (noteList st)\<rparr>"

definition updateNote :: "int \<Rightarrow> string \<Rightarrow> bool \<Rightarrow> app \<Rightarrow> error + app" where
  "updateNote now c addToHistory st =
     (if addToHistory then
        (case activeNote st of
           None \<Rightarrow> Inl TypeError
         | Some a \<Rightarrow>
             Inr (updateNotes now c
                    (st\<lparr>undoStack := undoStack st @ [content a], redoStack := []\<rparr>)))
      else Inr (updateNotes now c st))"

text \<open>The editor's \<open>onChange\<close> (line 725) is \<open>updateNote(e.target.value)\<close>.\<close>

definition edit :: "int \<Rightarrow> string \<Rightarrow> app \<Rightarrow> error + app" where
  "edit now c st = updateNote now c True st"

text \<open>\<open>handleUndo\<close> (lines 154--165) and \<open>handleRedo\<close> (lines 167--178).\<close>

definition handleUndo :: "int \<Rightarrow> app \<Rightarrow> error + app" where
  "handleUndo now st =
     (if length (undoStack st) > 0 then
        (case activeNote st of
           None \<Rightarrow> Inl TypeError
         | Some a \<Rightarrow>
             (let previousContent = last (undoStack st);
                  currentContent = content a;
                  st1 = st\<lparr>undoStack := butlast (undoStack st),
                           redoStack := redoStack st @ [currentContent]\<rparr>
              in map_sum id (showStatus ''Undo'') (updateNote now previousContent False st1)))
      else Inr st)"

definition handleRedo :: "int \<Rightarrow> app \<Rightarrow> error + app" where
  "handleRedo now st =
     (if length (redoStack st) > 0 then
        (case activeNote st of
           None \<Rightarrow> Inl TypeError
         | Some a \<Rightarrow>
             (let nextContent = last (redoStack st);
                  currentContent = content a;
                  st1 = st\<lparr>redoStack := butlast (redoStack st),
                           undoStack := undoStack st @ [currentContent]\<rparr>
              in map_sum id (showStatus ''Redo'') (updateNote now nextContent False st1)))
      else Inr st)"

text \<open>
  \<open>updatedNotes.find(n => n.id === id)?.flag\<close>, as the status lines of the toggles
  read it.
\<close>

definition flagOf :: "(Note \<Rightarrow> bool option) \<Rightarrow> string \<Rightarrow> Note list \<Rightarrow> bool" where
  "flagOf flag i ns =
     (case find (\<lambda>n. note_id n = i) ns of None \<Rightarrow> False | Some n \<Rightarrow> truthy (flag n))"

text \<open>\<open>toggleLock\<close> (lines 180--197).\<close>

definition toggleLock :: "app \<Rightarrow> string \<Rightarrow> app" where
  "toggleLock st i =
     (if passwordInput st = [] then showStatus ''Please enter a password first'' st
      else
        (let updatedNotes =
               map (\<lambda>n. if note_id n = i
                         then n\<lparr>isLocked := Some (\<not> truthy (isLocked n)),
                                password := (if \<not> truthy (isLocked n)
                                             then Some (passwordInput st) else None)\<rparr>
                         else n)
                   (noteList st)
         in showStatus (if flagOf isLocked i updatedNotes then ''Note locked''
                        else ''Note unlocked'')
              (st\<lparr>noteList := updatedNotes\<rparr>)))"

text \<open>\<open>toggleArchive\<close> (lines 199--207).\<close>

definition toggleArchive :: "app \<Rightarrow> string \<Rightarrow> app" where
  "toggleArchive st i =
     (let updatedNotes =
            map (\<lambda>n. if note_id n = i then n\<lparr>isArchived := Some (\<not> truthy (isArchived n))\<rparr>
                      else n)
                (noteList st)
      in showStatus (if flagOf isArchived i updatedNotes then ''Note archived''
                     else ''Note unarchived'')
           (st\<lparr>noteList := updatedNotes\<rparr>))"

text \<open>\<open>toggleFavorite\<close> (lines 299--305).\<close>

definition toggleFavorite :: "app \<Rightarrow> string \<Rightarrow> app" where
  "toggleFavorite st i =
     (let updatedNotes =
            map (\<lambda>n. if note_id n = i then n\<lparr>favorite := Some (\<not> truthy (favorite n))\<rparr>
                      else n)
                (noteList st)
      in showStatus (if flagOf favorite i updatedNotes then ''Added to favorites''
                     else ''Removed from favorites'')
           (st\<lparr>noteList := updatedNotes\<rparr>))"

text \<open>
  \<open>deleteNote\<close> (lines 288--297). When every note carries the id, \<open>updatedNotes\<close> is
  empty and \<open>updatedNotes[0].id\<close> throws.
\<close>

definition deleteNote :: "app \<Rightarrow> string \<Rightarrow> error + app" where
  "deleteNote st i =
     (if length (noteList st) = 1 then Inr (showStatus ''Cannot delete the last note'' st)
      else
        (let updatedNotes = filter (\<lambda>n. note_id n \<noteq> i) (noteList st)
         in case updatedNotes of
              [] \<Rightarrow> Inl TypeError
            | n # _ \<Rightarrow>
                Inr (showStatus ''Note deleted''
                       (st\<lparr>noteList := updatedNotes, activeNoteId := note_id n\<rparr>))))"

text \<open>
  \<open>createNewNote\<close> (lines 245--263); \<open>idNow\<close> is the value of \<open>Date.now()\<close> and
  \<open>now\<close> that of \<open>new Date()\<close>.
\<close>

definition newNote :: "nat \<Rightarrow> int \<Rightarrow> Note" where
  "newNote idNow now =
     \<lparr>note_id = toString idNow, title = ''New Note'', content = [],
      lastModified = now, favorite = None, tags = [],
      format = \<lparr>bold = [False], italic = [False], underline = [False]\<rparr>,
      isLocked = None, password = None, isArchived = None,
      version = Some 1, history = Some []\<rparr>"

definition createNewNote :: "nat \<Rightarrow> int \<Rightarrow> app \<Rightarrow> app" where
  "createNewNote idNow now st =
     showStatus ''New note created''
       (st\<lparr>noteList := noteList st @ [newNote idNow now],
           activeNoteId := note_id (newNote idNow now)\<rparr>)"

text \<open>The click handler of a row of the list (lines 472--478) and \<open>setPassword\<close>.\<close>

definition selectNote :: "app \<Rightarrow> Note \<Rightarrow> app" where
  "selectNote st n =
     (if truthy (isLocked n) \<and> password n \<noteq> Some (passwordInput st)
      then showStatus ''Please enter the correct password'' st
      else st\<lparr>activeNoteId := note_id n\<rparr>)"

definition setPassword :: "string \<Rightarrow> app \<Rightarrow> app" where
  "setPassword pw st = st\<lparr>passwordInput := pw\<rparr>"

section \<open>The query pipeline\<close>

text \<open>The predicate of \<open>notes.filter\<close> (lines 126--132), over the host \<open>h\<close>.\<close>

definition matchesFilter :: "host \<Rightarrow> app \<Rightarrow> Note \<Rightarrow> bool" where
  "matchesFilter h st n =
     (let searchLower = toLowerCase h (searchQuery st);
          titleMatch = str_includes (toLowerCase h (title n)) searchLower;
          contentMatch = str_includes (toLowerCase h (content n)) searchLower;
          tagMatch = (length (selectedTags st) = 0
                      \<or> list_all (\<lambda>tag. List.member (tags n) tag) (selectedTags st))
      in (titleMatch \<or> contentMatch) \<and> tagMatch)"

text \<open>
  The comparator of \<open>filtered.sort\<close> (lines 134--151). A difference with a \<open>NaN\<close>
  operand is \<open>NaN\<close>, which the sort reads as \<open>0\<close>.
\<close>

definition comparison :: "host \<Rightarrow> sort_option \<Rightarrow> Note \<Rightarrow> Note \<Rightarrow> int" where
  "comparison h opt a b =
     (case opt of
        Modified \<Rightarrow> lastModified b - lastModified a
      | Title \<Rightarrow> localeCompare h (title a) (title b)
      | Created \<Rightarrow>
          (case (parseInt h (note_id a), parseInt h (note_id b)) of
             (Some x, Some y) \<Rightarrow> x - y
           | _ \<Rightarrow> 0)
      | Archived \<Rightarrow>
          (if truthy (isArchived b) then 1 else 0) - (if truthy (isArchived a) then 1 else 0))"

definition compareNotes :: "host \<Rightarrow> app \<Rightarrow> Note \<Rightarrow> Note \<Rightarrow> int" where
  "compareNotes h st a b =
     (if sortDirection st = Desc then comparison h (sortOption st) a b
      else - comparison h (sortOption st) a b)"

definition filteredNotes :: "host \<Rightarrow> app \<Rightarrow> Note list" where
  "filteredNotes h st = sortBy (compareNotes h st) (filter (matchesFilter h st) (noteList st))"

section \<open>Runs of operations and the properties' vocabulary\<close>

text \<open>
  The initial values of the state cells (lines 49--62) over a stored collection
  \<open>n # ns\<close>: the first note is active.
\<close>

definition initApp :: "Note \<Rightarrow> Note list \<Rightarrow> app" where
  "initApp n ns =
     \<lparr>noteList = n # ns, activeNoteId = note_id n, statusMessage = [],
      searchQuery = [], selectedTags = [], sortOption = Modified, sortDirection = Desc,
      passwordInput = [], undoStack = [], redoStack = []\<rparr>"

text \<open>A note as \<open>createNewNote\<close> makes it, after its id and content are set.\<close>

definition sampleNote :: "string \<Rightarrow> string \<Rightarrow> Note" where
  "sampleNote i c = (newNote 0 0)\<lparr>note_id := i, title := titleOf c, content := c\<rparr>"

text \<open>
  A run of edits of the active note, each with its time and its new content, stopping
  at the first error.
\<close>

fun edits :: "(int \<times> string) list \<Rightarrow> app \<Rightarrow> error + app" where
  "edits [] st = Inr st"
| "edits ((now, c) # es) st =
     (case edit now c st of Inl e \<Rightarrow> Inl e | Inr st' \<Rightarrow> edits es st')"

text \<open>
  A run of lock toggles: each step types a candidate password into the password box
  and presses the lock button of the note with the given id.
\<close>

fun toggleLocks :: "(string \<times> string) list \<Rightarrow> app \<Rightarrow> app" where
  "toggleLocks [] st = st"
| "toggleLocks ((pw, i) # ops) st = toggleLocks ops (toggleLock (setPassword pw st) i)"

text \<open>The data model's invariant of the lock fields of a note.\<close>

definition lockInv :: "Note \<Rightarrow> bool" where
  "lockInv n = ((password n \<noteq> None) = truthy (isLocked n))"

text \<open>
  The specification's "contains the search text, case-insensitive": the text, in the
  host's lower case, has the search text, in the host's lower case, as a contiguous
  run.
\<close>

definition containsIgnoringCase :: "host \<Rightarrow> string \<Rightarrow> string \<Rightarrow> bool" where
  "containsIgnoringCase h text q =
     (\<exists>before after. toLowerCase h text = before @ toLowerCase h q @ after)"

text \<open>
  Two characters that a character folding \<open>lc\<close> does not tell apart. Where the host
  lower-cases a text character by character, a run of the text that agrees with the
  search text up to \<open>sameLetter\<close> is what case-insensitive containment means.
\<close>

definition sameLetter :: "(char \<Rightarrow> char) \<Rightarrow> char \<Rightarrow> char \<Rightarrow> bool" where
  "sameLetter lc c d = (lc c = lc d)"

text \<open>
  A comparator that is consistent on a list of strings: swapping the arguments swaps
  the sign, and "not after" is transitive. The language fixes the result of a sort
  for such a comparator only.
\<close>

definition consistentOn :: "(string \<Rightarrow> string \<Rightarrow> int) \<Rightarrow> string list \<Rightarrow> bool" where
  "consistentOn cmp ts =
     ((\<forall>a \<in> set ts. \<forall>b \<in> set ts. (cmp a b \<le> 0) = (0 \<le> cmp b a))
      \<and> (\<forall>a \<in> set ts. \<forall>b \<in> set ts. \<forall>c \<in> set ts.
            cmp a b \<le> 0 \<and> cmp b c \<le> 0 \<longrightarrow> cmp a c \<le> 0))"

text \<open>
  Overwriting the lock fields of every note (by its id) and the candidate password:
  two states related so differ in nothing but what the lock gate reads.
\<close>

definition relockNote :: "(string \<Rightarrow> bool option \<times> string option) \<Rightarrow> Note \<Rightarrow> Note" where
  "relockNote lk n = n\<lparr>isLocked := fst (lk (note_id n)), password := snd (lk (note_id n))\<rparr>"

definition relock :: "(string \<Rightarrow> bool option \<times> string option) \<Rightarrow> string \<Rightarrow> app \<Rightarrow> app" where
  "relock lk pw st = st\<lparr>noteList := map (relockNote lk) (noteList st), passwordInput := pw\<rparr>"

section \<open>A host for the examples\<close>

text \<open>
  What the three built-ins compute on strings of ASCII letters, digits and spaces.
  The examples run the pipeline over this host; no statement about every host rests
  on it.
\<close>

text \<open>Lower case of the ASCII letters; every other character is left as it is.\<close>

definition asciiLower :: "char \<Rightarrow> char" where
  "asciiLower c =
     (if 65 \<le> (of_char c :: nat) \<and> (of_char c :: nat) \<le> 90
      then char_of ((of_char c :: nat) + 32) else c)"

definition asciiToLowerCase :: "string \<Rightarrow> string" where
  "asciiToLowerCase s = map asciiLower s"

text \<open>Comparison of two strings by character code: negative, zero or positive.\<close>

fun codeCompare :: "string \<Rightarrow> string \<Rightarrow> int" where
  "codeCompare [] [] = 0"
| "codeCompare [] (y # ys) = - 1"
| "codeCompare (x # xs) [] = 1"
| "codeCompare (x # xs) (y # ys) =
     (if (of_char x :: nat) < of_char y then - 1
      else if (of_char y :: nat) < of_char x then 1
      else codeCompare xs ys)"

text \<open>
  On strings of ASCII letters and digits the default collation orders by the letters
  without regard to case and, between strings that differ in case only, puts the
  lower-case letter first at the first difference.
\<close>

definition asciiLocaleCompare :: "string \<Rightarrow> string \<Rightarrow> int" where
  "asciiLocaleCompare a b =
     (let primary = codeCompare (asciiToLowerCase a) (asciiToLowerCase b)
      in if primary \<noteq> 0 then primary else - codeCompare a b)"

text \<open>
  Reading an integer with no radix given: leading ASCII white space, an optional
  sign, then a hexadecimal numeral after \<open>0x\<close> or else the longest run of decimal
  digits.
\<close>

definition isSpace :: "char \<Rightarrow> bool" where
  "isSpace c = ((of_char c :: nat) \<in> {9, 10, 11, 12, 13, 32})"

definition digitVal :: "char \<Rightarrow> nat option" where
  "digitVal c =
     (let k = (of_char c :: nat)
      in if 48 \<le> k \<and> k \<le> 57 then Some (k - 48)
         else if 97 \<le> k \<and> k \<le> 102 then Some (k - 87)
         else if 65 \<le> k \<and> k \<le> 70 then Some (k - 55)
         else None)"

definition isDigitIn :: "nat \<Rightarrow> char \<Rightarrow> bool" where
  "isDigitIn radix c = (case digitVal c of None \<Rightarrow> False | Some d \<Rightarrow> d < radix)"

definition numeral_in :: "nat \<Rightarrow> string \<Rightarrow> int option" where
  "numeral_in radix s =
     (let ds = takeWhile (isDigitIn radix) s
      in if ds = [] then None
         else Some (int (foldl (\<lambda>acc c. acc * radix
                                        + (case digitVal c of None \<Rightarrow> 0 | Some d \<Rightarrow> d))
                                0 ds)))"

definition asciiParseInt :: "string \<Rightarrow> int option" where
  "asciiParseInt s =
     (let s1 = dropWhile isSpace s;
          neg = (case s1 of [] \<Rightarrow> False | c # _ \<Rightarrow> c = CHR ''-'');
          s2 = (case s1 of [] \<Rightarrow> [] | c # r \<Rightarrow> if c = CHR ''-'' \<or> c = CHR ''+'' then r else s1);
          hex = (take 2 s2 = ''0x'' \<or> take 2 s2 = ''0X'');
          r = (if hex then numeral_in 16 (drop 2 s2) else numeral_in 10 s2)
      in map_option (\<lambda>v. if neg then - v else v) r)"

definition asciiHost :: host where
  "asciiHost =
     \<lparr>toLowerCase = asciiToLowerCase, localeCompare = asciiLocaleCompare,
      parseInt = asciiParseInt\<rparr>"

section \<open>Example states\<close>

text \<open>
  A note that was created with content \<open>a\<close> and edited once to \<open>b\<close>, in a
  session whose undo and redo stacks both hold a snapshot.
\<close>

definition editedNote :: Note where
  "editedNote = (sampleNote ''1'' ''b'')\<lparr>version := Some 2, history := Some [''a'']\<rparr>"

definition undoExample :: app where
  "undoExample = (initApp editedNote [])\<lparr>undoStack := [''a''], redoStack := [''c'']\<rparr>"

definition undoneNote :: Note where
  "undoneNote =
     editedNote\<lparr>content := ''a'', title := ''a'', lastModified := 7,
                version := Some 3, history := Some [''a'', ''b'']\<rparr>"

definition undoExampleAfter :: app where
  "undoExampleAfter =
     undoExample\<lparr>noteList := [undoneNote], statusMessage := ''Undo'',
                 undoStack := [], redoStack := [''c'', ''b'']\<rparr>"

text \<open>A session that has just created one note.\<close>

definition freshApp :: app where
  "freshApp = initApp (newNote 5 5) []"

text \<open>Three notes titled Banana, Apple and cherry, sorted by title, ascending.\<close>

definition titlesExample :: app where
  "titlesExample =
     (initApp (sampleNote ''1'' ''Banana'') [sampleNote ''2'' ''Apple'', sampleNote ''3'' ''cherry''])
       \<lparr>sortOption := Title, sortDirection := Asc\<rparr>"

text \<open>The same three notes, sorted by title in the initial direction.\<close>

definition titlesDesc :: app where
  "titlesDesc = titlesExample\<lparr>sortDirection := Desc\<rparr>"

text \<open>Three notes, the third one active.\<close>

definition threeNotes :: app where
  "threeNotes =
     (initApp (sampleNote ''1'' ''one'') [sampleNote ''2'' ''two'', sampleNote ''3'' ''three''])
       \<lparr>activeNoteId := ''3''\<rparr>"

definition threeNotesAfter :: app where
  "threeNotesAfter =
     threeNotes\<lparr>noteList := [sampleNote ''1'' ''one'', sampleNote ''3'' ''three''],
                activeNoteId := ''1'', statusMessage := ''Note deleted''\<rparr>"

text \<open>
  A note locked with the password \<open>pw\<close> and an open one, while the password box
  holds \<open>guess\<close>.
\<close>

definition lockedNote :: Note where
  "lockedNote = (sampleNote ''1'' ''secret'')\<lparr>isLocked := Some True, password := Some ''pw''\<rparr>"

definition lockedNotes :: app where
  "lockedNotes = (initApp lockedNote [sampleNote ''2'' ''open''])\<lparr>passwordInput := ''guess''\<rparr>"

text \<open>Two notes with tags, a search text and two selected tags.\<close>

definition taggedNote :: Note where
  "taggedNote = (sampleNote ''1'' ''Shopping List'')\<lparr>tags := [''A'', ''B'']\<rparr>"

definition taggedNotes :: app where
  "taggedNotes =
     (initApp taggedNote [(sampleNote ''2'' ''shop hours'')\<lparr>tags := [''A'']\<rparr>])
       \<lparr>searchQuery := ''SHOP'', selectedTags := [''A'', ''B'']\<rparr>"

text \<open>
  The two notes of \<open>lockedNotes\<close> with their lock fields unset and an empty password
  box, and the lock fields that make \<open>lockedNotes\<close> of them.
\<close>

definition openNotes :: app where
  "openNotes = initApp (sampleNote ''1'' ''secret'') [sampleNote ''2'' ''open'']"

definition lockFirst :: "string \<Rightarrow> bool option \<times> string option" where
  "lockFirst i = (if i = ''1'' then (Some True, Some ''pw'') else (None, None))"

text \<open>
  Three notes modified at the times 20, 10 and 30, sorted by modification time,
  ascending.
\<close>

definition timedNote :: "string \<Rightarrow> int \<Rightarrow> Note" where
  "timedNote i t = (sampleNote i i)\<lparr>lastModified := t\<rparr>"

definition timesExample :: app where
  "timesExample =
     (initApp (timedNote ''1'' 20) [timedNote ''2'' 10, timedNote ''3'' 30])
       \<lparr>sortOption := Modified, sortDirection := Asc\<rparr>"

declare toString.simps [simp del]

section \<open>The active note under an update\<close>

lemma find_map_same:
  "(\<And>x. P (f x) = P x) \<Longrightarrow> find P (map f xs) = map_option f (find P xs)"
  by (induction xs) simp_all

lemma note_id_updatedNote [simp]: "note_id (updatedNote now c n) = note_id n"
  by (simp add: updatedNote_def)

lemma activeNote_updateNotes:
  "activeNote (updateNotes now c st) =
     map_option (\<lambda>n. if note_id n = activeNoteId st then updatedNote now c n else n) (activeNote st)"
proof -
  let ?g = "\<lambda>n. if note_id n = activeNoteId st then updatedNote now c n else n"
  have "find (\<lambda>n. note_id n = activeNoteId st) (map ?g (noteList st)) =
          map_option ?g (find (\<lambda>n. note_id n = activeNoteId st) (noteList st))"
    by (rule find_map_same) simp
  then show ?thesis
    by (cases "noteList st") (auto simp: activeNote_def updateNotes_def split: option.splits)
qed

lemma activeNote_stacks [simp]:
  "activeNote (st\<lparr>undoStack := u, redoStack := r\<rparr>) = activeNote st"
  "activeNote (st\<lparr>redoStack := r, undoStack := u\<rparr>) = activeNote st"
  "activeNote (showStatus m st) = activeNote st"
  by (simp_all add: activeNote_def showStatus_def cong: option.case_cong list.case_cong)

lemma fields_updateNotes [simp]:
  "activeNoteId (updateNotes now c st) = activeNoteId st"
  "undoStack (updateNotes now c st) = undoStack st"
  "redoStack (updateNotes now c st) = redoStack st"
  by (simp_all add: updateNotes_def)

lemma fields_showStatus [simp]:
  "activeNoteId (showStatus m st) = activeNoteId st"
  "undoStack (showStatus m st) = undoStack st"
  "redoStack (showStatus m st) = redoStack st"
  "noteList (showStatus m st) = noteList st"
  by (simp_all add: showStatus_def)

lemma handleUndo_step:
  assumes "undoStack st \<noteq> []" and "activeNote st = Some a"
  shows "handleUndo now st =
           Inr (showStatus ''Undo''
                  (updateNotes now (last (undoStack st))
                     (st\<lparr>undoStack := butlast (undoStack st),
                         redoStack := redoStack st @ [content a]\<rparr>)))"
  using assms by (simp add: handleUndo_def updateNote_def)

lemma handleRedo_step:
  assumes "redoStack st \<noteq> []" and "activeNote st = Some a"
  shows "handleRedo now st =
           Inr (showStatus ''Redo''
                  (updateNotes now (last (redoStack st))
                     (st\<lparr>redoStack := butlast (redoStack st),
                         undoStack := undoStack st @ [content a]\<rparr>)))"
  using assms by (simp add: handleRedo_def updateNote_def)

lemma edit_step:
  assumes "activeNote st = Some a"
  shows "edit now c st =
           Inr (updateNotes now c (st\<lparr>undoStack := undoStack st @ [content a], redoStack := []\<rparr>))"
  using assms by (simp add: edit_def updateNote_def)

lemma activeNote_after_undo:
  assumes "activeNote st = Some a"
  shows "activeNote (updateNotes now c (st\<lparr>undoStack := u, redoStack := r\<rparr>)) =
           Some (if note_id a = activeNoteId st then updatedNote now c a else a)"
  using assms by (simp add: activeNote_updateNotes)

lemma activeNote_after_redo:
  assumes "activeNote st = Some a"
  shows "activeNote (updateNotes now c (st\<lparr>redoStack := r, undoStack := u\<rparr>)) =
           Some (if note_id a = activeNoteId st then updatedNote now c a else a)"
  using assms by (simp add: activeNote_updateNotes)

section \<open>Undo, redo and the version counter\<close>

text \<open>
  C1, as the specification has it, fails: \<open>handleUndo\<close> goes through \<open>updateNote\<close>,
  whose map over the notes bumps \<open>version\<close> and appends to \<open>history\<close> whatever the
  flag says. On the example the undo takes the version from 2 to 3 and the history
  from \<open>[a]\<close> to \<open>[a, b]\<close>.
\<close>

theorem undo_changes_version_and_history:
  "undoStack undoExample \<noteq> []
   \<and> activeNote undoExample = Some editedNote
   \<and> handleUndo 7 undoExample = Inr undoExampleAfter
   \<and> activeNote undoExampleAfter = Some undoneNote
   \<and> version editedNote = Some 2 \<and> version undoneNote = Some 3
   \<and> history editedNote = Some [''a''] \<and> history undoneNote = Some [''a'', ''b'']"
  by (simp add: editedNote_def undoExample_def undoneNote_def undoExampleAfter_def
      initApp_def sampleNote_def newNote_def titleOf_def handleUndo_def updateNote_def
      updateNotes_def updatedNote_def
      activeNote_def showStatus_def versionOf_def historyOf_def Let_def)

text \<open>
  C1, amended: when the active id names a note of the collection, \<open>undo()\<close> on a
  non-empty undo stack replaces the active note's content with the popped snapshot,
  and \<open>redo()\<close> on a non-empty redo stack with the popped redo snapshot; both, like
  \<open>edit(newContent)\<close>, set the version to \<open>(version || 1) + 1\<close> and append the
  content they replace to the history log.
\<close>

theorem undo_redo_edit_bump_version:
  assumes "activeNote st = Some a" and "note_id a = activeNoteId st"
  shows "(undoStack st \<noteq> [] \<longrightarrow>
            (\<exists>st' a'. handleUndo now st = Inr st' \<and> activeNote st' = Some a'
               \<and> content a' = last (undoStack st)
               \<and> version a' = Some (versionOf a + 1)
               \<and> history a' = Some (historyOf a @ [content a])))
       \<and> (redoStack st \<noteq> [] \<longrightarrow>
            (\<exists>st' a'. handleRedo now st = Inr st' \<and> activeNote st' = Some a'
               \<and> content a' = last (redoStack st)
               \<and> version a' = Some (versionOf a + 1)
               \<and> history a' = Some (historyOf a @ [content a])))
       \<and> (\<exists>st' a'. edit now c st = Inr st' \<and> activeNote st' = Some a'
               \<and> content a' = c
               \<and> version a' = Some (versionOf a + 1)
               \<and> history a' = Some (historyOf a @ [content a]))"
  using assms
  by (simp add: handleUndo_step handleRedo_step edit_step activeNote_after_undo
      activeNote_after_redo updatedNote_def)

theorem undo_redo_edit_bump_version_witness:
  "activeNote undoExample = Some editedNote
   \<and> note_id editedNote = activeNoteId undoExample
   \<and> undoStack undoExample \<noteq> [] \<and> redoStack undoExample \<noteq> []
   \<and> (\<exists>st' a'. handleUndo 7 undoExample = Inr st' \<and> activeNote st' = Some a'
         \<and> content a' = ''a'' \<and> version a' = Some 3 \<and> history a' = Some [''a'', ''b''])
   \<and> (\<exists>st' a'. handleRedo 7 undoExample = Inr st' \<and> activeNote st' = Some a'
         \<and> content a' = ''c'' \<and> version a' = Some 3 \<and> history a' = Some [''a'', ''b''])
   \<and> (\<exists>st' a'. edit 7 ''bc'' undoExample = Inr st' \<and> activeNote st' = Some a'
         \<and> content a' = ''bc'' \<and> version a' = Some 3 \<and> history a' = Some [''a'', ''b''])"
proof -
  have h1: "activeNote undoExample = Some editedNote"
    by (simp add: editedNote_def undoExample_def initApp_def sampleNote_def newNote_def
        titleOf_def activeNote_def)
  have h2: "note_id editedNote = activeNoteId undoExample"
    by (simp add: editedNote_def undoExample_def initApp_def sampleNote_def newNote_def
        titleOf_def)
  have h3: "undoStack undoExample \<noteq> []" and h4: "redoStack undoExample \<noteq> []"
    and l3: "last (undoStack undoExample) = ''a''" and l4: "last (redoStack undoExample) = ''c''"
    by (simp_all add: editedNote_def undoExample_def initApp_def sampleNote_def newNote_def
        titleOf_def)
  have v: "versionOf editedNote + 1 = 3" and h: "historyOf editedNote @ [content editedNote] = [''a'', ''b'']"
    by (simp_all add: editedNote_def undoExample_def initApp_def sampleNote_def newNote_def
        titleOf_def versionOf_def historyOf_def)
  show ?thesis
    using undo_redo_edit_bump_version [OF h1 h2, of 7 "''bc''"] h1 h2 h3 h4
    by (simp only: l3 l4 v h simp_thms)
qed

section \<open>Undo followed by redo\<close>

lemma undo_then_redo:
  assumes a: "activeNote st = Some a" and ne: "undoStack st \<noteq> []"
  shows "\<exists>st1 st2 a2. handleUndo t1 st = Inr st1 \<and> handleRedo t2 st1 = Inr st2
           \<and> activeNote st2 = Some a2 \<and> content a2 = content a"
proof -
  define st1 where "st1 = showStatus ''Undo''
                  (updateNotes t1 (last (undoStack st))
                     (st\<lparr>undoStack := butlast (undoStack st),
                         redoStack := redoStack st @ [content a]\<rparr>))"
  define a1 where "a1 = (if note_id a = activeNoteId st then updatedNote t1 (last (undoStack st)) a else a)"
  have u: "handleUndo t1 st = Inr st1"
    unfolding st1_def by (rule handleUndo_step [OF ne a])
  have a1: "activeNote st1 = Some a1"
    unfolding st1_def a1_def using a by (simp add: activeNote_after_undo)
  have r1: "redoStack st1 \<noteq> []" and lastr: "last (redoStack st1) = content a"
    and id1: "activeNoteId st1 = activeNoteId st"
    unfolding st1_def by simp_all
  define st2 where "st2 = showStatus ''Redo''
                  (updateNotes t2 (last (redoStack st1))
                     (st1\<lparr>redoStack := butlast (redoStack st1),
                         undoStack := undoStack st1 @ [content a1]\<rparr>))"
  have r: "handleRedo t2 st1 = Inr st2"
    unfolding st2_def by (rule handleRedo_step [OF r1 a1])
  have a2: "activeNote st2 =
              Some (if note_id a1 = activeNoteId st1 then updatedNote t2 (content a) a1 else a1)"
    unfolding st2_def using a1 by (simp add: activeNote_after_redo lastr)
  have "content (if note_id a1 = activeNoteId st1 then updatedNote t2 (content a) a1 else a1) = content a"
    by (simp add: a1_def id1 updatedNote_def)
  with u r a2 show ?thesis by blast
qed

lemma redo_then_undo:
  assumes a: "activeNote st = Some a" and ne: "redoStack st \<noteq> []"
  shows "\<exists>st1 st2 a2. handleRedo t1 st = Inr st1 \<and> handleUndo t2 st1 = Inr st2
           \<and> activeNote st2 = Some a2 \<and> content a2 = content a"
proof -
  define st1 where "st1 = showStatus ''Redo''
                  (updateNotes t1 (last (redoStack st))
                     (st\<lparr>redoStack := butlast (redoStack st),
                         undoStack := undoStack st @ [content a]\<rparr>))"
  define a1 where "a1 = (if note_id a = activeNoteId st then updatedNote t1 (last (redoStack st)) a else a)"
  have u: "handleRedo t1 st = Inr st1"
    unfolding st1_def by (rule handleRedo_step [OF ne a])
  have a1: "activeNote st1 = Some a1"
    unfolding st1_def a1_def using a by (simp add: activeNote_after_redo)
  have r1: "undoStack st1 \<noteq> []" and lastr: "last (undoStack st1) = content a"
    and id1: "activeNoteId st1 = activeNoteId st"
    unfolding st1_def by simp_all
  define st2 where "st2 = showStatus ''Undo''
                  (updateNotes t2 (last (undoStack st1))
                     (st1\<lparr>undoStack := butlast (undoStack st1),
                         redoStack := redoStack st1 @ [content a1]\<rparr>))"
  have r: "handleUndo t2 st1 = Inr st2"
    unfolding st2_def by (rule handleUndo_step [OF r1 a1])
  have a2: "activeNote st2 =
              Some (if note_id a1 = activeNoteId st1 then updatedNote t2 (content a) a1 else a1)"
    unfolding st2_def using a1 by (simp add: activeNote_after_undo lastr)
  have "content (if note_id a1 = activeNoteId st1 then updatedNote t2 (content a) a1 else a1) = content a"
    by (simp add: a1_def id1 updatedNote_def)
  with u r a2 show ?thesis by blast
qed

text \<open>
  C6: in every state with a note, an undo on a non-empty undo stack followed at once
  by a redo leaves the active note with the content it had before the undo, and a
  redo on a non-empty redo stack followed at once by an undo with the content it had
  before the redo. Both operations return a state (neither throws).
\<close>

theorem undo_redo_roundtrip:
  assumes "activeNote st = Some a"
  shows "(undoStack st \<noteq> [] \<longrightarrow>
            (\<exists>st1 st2 a2. handleUndo t1 st = Inr st1 \<and> handleRedo t2 st1 = Inr st2
               \<and> activeNote st2 = Some a2 \<and> content a2 = content a))
       \<and> (redoStack st \<noteq> [] \<longrightarrow>
            (\<exists>st1 st2 a2. handleRedo t1 st = Inr st1 \<and> handleUndo t2 st1 = Inr st2
               \<and> activeNote st2 = Some a2 \<and> content a2 = content a))"
  using undo_then_redo [OF assms] redo_then_undo [OF assms] by blast

theorem undo_redo_roundtrip_witness:
  "activeNote undoExample = Some editedNote
   \<and> undoStack undoExample \<noteq> [] \<and> redoStack undoExample \<noteq> []
   \<and> (\<exists>st1 st2 a2. handleUndo 8 undoExample = Inr st1 \<and> handleRedo 9 st1 = Inr st2
         \<and> activeNote st2 = Some a2 \<and> content a2 = ''b'')
   \<and> (\<exists>st1 st2 a2. handleRedo 8 undoExample = Inr st1 \<and> handleUndo 9 st1 = Inr st2
         \<and> activeNote st2 = Some a2 \<and> content a2 = ''b'')"
proof -
  have h1: "activeNote undoExample = Some editedNote"
    by (simp add: editedNote_def undoExample_def initApp_def sampleNote_def newNote_def
        titleOf_def activeNote_def)
  have h3: "undoStack undoExample \<noteq> []" and h4: "redoStack undoExample \<noteq> []"
    by (simp_all add: editedNote_def undoExample_def initApp_def sampleNote_def newNote_def
        titleOf_def)
  have c: "content editedNote = ''b''"
    by (simp add: editedNote_def undoExample_def initApp_def sampleNote_def newNote_def
        titleOf_def)
  show ?thesis
    using undo_redo_roundtrip [OF h1, of 8 9] h1 h3 h4
    by (simp only: c simp_thms)
qed

section \<open>Runs of edits\<close>

lemma versionOf_updatedNote:
  "0 < versionOf n \<Longrightarrow> versionOf (updatedNote now c n) = versionOf n + 1"
  by (simp add: versionOf_def updatedNote_def)

lemma edit_active:
  assumes "activeNote st = Some a" and "note_id a = activeNoteId st"
  shows "\<exists>st'. edit now c st = Inr st' \<and> activeNote st' = Some (updatedNote now c a)
           \<and> activeNoteId st' = activeNoteId st"
  using assms by (simp add: edit_step activeNote_after_undo)

lemma edits_active:
  assumes "activeNote st = Some a" and "note_id a = activeNoteId st" and "0 < versionOf a"
  shows "\<exists>st' a'. edits es st = Inr st' \<and> activeNote st' = Some a'
           \<and> versionOf a' = versionOf a + int (length es)
           \<and> (es \<noteq> [] \<longrightarrow> version a' = Some (versionOf a + int (length es)))
           \<and> (es = [] \<longrightarrow> a' = a)
           \<and> historyOf a' = historyOf a @ butlast (content a # map snd es)"
  using assms
proof (induction es arbitrary: st a)
  case Nil
  then show ?case by simp
next
  case (Cons e es)
  obtain now c where e: "e = (now, c)" by (cases e)
  obtain st1 where s1: "edit now c st = Inr st1"
    and a1: "activeNote st1 = Some (updatedNote now c a)"
    and i1: "activeNoteId st1 = activeNoteId st"
    using edit_active [OF Cons.prems(1,2)] by blast
  have v1: "versionOf (updatedNote now c a) = versionOf a + 1"
    by (rule versionOf_updatedNote [OF Cons.prems(3)])
  have p2: "note_id (updatedNote now c a) = activeNoteId st1"
    using Cons.prems(2) i1 by simp
  have p3: "0 < versionOf (updatedNote now c a)"
    using v1 Cons.prems(3) by simp
  obtain st' a' where r: "edits es st1 = Inr st'" and a': "activeNote st' = Some a'"
    and v: "versionOf a' = versionOf (updatedNote now c a) + int (length es)"
    and vs: "es \<noteq> [] \<longrightarrow> version a' = Some (versionOf (updatedNote now c a) + int (length es))"
    and nil: "es = [] \<longrightarrow> a' = updatedNote now c a"
    and h: "historyOf a' = historyOf (updatedNote now c a) @ butlast (content (updatedNote now c a) # map snd es)"
    using Cons.IH [OF a1 p2 p3] by blast
  have hu: "historyOf (updatedNote now c a) = historyOf a @ [content a]"
    and cu: "content (updatedNote now c a) = c"
    and vu: "version (updatedNote now c a) = Some (versionOf a + 1)"
    by (simp_all add: updatedNote_def historyOf_def)
  have "edits (e # es) st = Inr st'"
    using s1 r e by simp
  moreover have "versionOf a' = versionOf a + int (length (e # es))"
    using v v1 by simp
  moreover have "version a' = Some (versionOf a + int (length (e # es)))"
    using vs nil vu v1 by (cases "es = []") simp_all
  moreover have "historyOf a' = historyOf a @ butlast (content a # map snd (e # es))"
    using h hu cu e by simp
  ultimately show ?case using a' by simp
qed

text \<open>
  C7: let the active id name a note of the collection whose version is a positive
  number \<open>v\<close> (a created note has version 1). After \<open>N\<close> edits in a row, with any
  times and contents, the run returns a state; the note's version is \<open>v + N\<close>; its
  history log is the log before the run followed by \<open>N\<close> entries, the \<open>k\<close>-th of them
  the content that was in place before the \<open>k\<close>-th edit; so a note whose log was empty
  when the run began, as a created note's is, has exactly \<open>N\<close> entries.
\<close>

theorem edits_version_history:
  assumes "activeNote st = Some a" and "note_id a = activeNoteId st"
    and "version a = Some v" and "0 < v"
  shows "\<exists>st' a'. edits es st = Inr st' \<and> activeNote st' = Some a'
           \<and> version a' = Some (v + int (length es))
           \<and> historyOf a' = historyOf a @ butlast (content a # map snd es)
           \<and> length (historyOf a') = length (historyOf a) + length es
           \<and> (historyOf a = [] \<longrightarrow>
                length (historyOf a') = length es
                \<and> (\<forall>k < length es. historyOf a' ! k = (content a # map snd es) ! k))"
proof -
  have vo: "versionOf a = v" using assms(3,4) by (simp add: versionOf_def)
  then have pos: "0 < versionOf a" using assms(4) by simp
  obtain st' a' where r: "edits es st = Inr st'" and a': "activeNote st' = Some a'"
    and vs: "es \<noteq> [] \<longrightarrow> version a' = Some (versionOf a + int (length es))"
    and nil: "es = [] \<longrightarrow> a' = a"
    and h: "historyOf a' = historyOf a @ butlast (content a # map snd es)"
    using edits_active [OF assms(1,2) pos] by blast
  have v: "version a' = Some (v + int (length es))"
    using vs nil vo assms(3) by (cases "es = []") simp_all
  have len: "length (butlast (content a # map snd es)) = length es"
    by (simp del: butlast.simps)
  have nth: "\<forall>k < length es. butlast (content a # map snd es) ! k = (content a # map snd es) ! k"
  proof (intro allI impI)
    fix k assume "k < length es"
    then have "k < length (butlast (content a # map snd es))"
      by (simp only: len)
    then show "butlast (content a # map snd es) ! k = (content a # map snd es) ! k"
      by (rule nth_butlast)
  qed
  have hl: "length (historyOf a') = length (historyOf a) + length es"
    by (simp only: h length_append len)
  have fresh: "historyOf a = [] \<longrightarrow>
                length (historyOf a') = length es
                \<and> (\<forall>k < length es. historyOf a' ! k = (content a # map snd es) ! k)"
  proof
    assume "historyOf a = []"
    then have "historyOf a' = butlast (content a # map snd es)"
      using h by (simp del: butlast.simps)
    then show "length (historyOf a') = length es
                \<and> (\<forall>k < length es. historyOf a' ! k = (content a # map snd es) ! k)"
      using len nth by (simp del: butlast.simps)
  qed
  show ?thesis using r a' v h hl fresh by blast
qed

theorem edits_version_history_witness:
  "activeNote freshApp = Some (newNote 5 5)
   \<and> note_id (newNote 5 5) = activeNoteId freshApp
   \<and> version (newNote 5 5) = Some 1 \<and> (0::int) < 1
   \<and> historyOf (newNote 5 5) = []
   \<and> (\<exists>st' a'. edits [(10, ''H''), (11, ''Hi'')] freshApp = Inr st' \<and> activeNote st' = Some a'
         \<and> version a' = Some 3
         \<and> historyOf a' = ['''', ''H'']
         \<and> length (historyOf a') = 2)"
proof -
  have h1: "activeNote freshApp = Some (newNote 5 5)"
    by (simp add: freshApp_def initApp_def activeNote_def)
  have h2: "note_id (newNote 5 5) = activeNoteId freshApp"
    by (simp add: freshApp_def initApp_def)
  have h3: "version (newNote 5 5) = Some 1" and h4: "(0::int) < 1"
    and h5: "historyOf (newNote 5 5) = []" and c: "content (newNote 5 5) = []"
    by (simp_all add: newNote_def historyOf_def)
  obtain st' a' where "edits [(10, ''H''), (11, ''Hi'')] freshApp = Inr st'"
    and "activeNote st' = Some a'"
    and "version a' = Some (1 + int (length [(10::int, ''H''), (11, ''Hi'')]))"
    and "historyOf a' = historyOf (newNote 5 5) @ butlast (content (newNote 5 5) # map snd [(10::int, ''H''), (11, ''Hi'')])"
    and "length (historyOf a') = length (historyOf (newNote 5 5)) + length [(10::int, ''H''), (11, ''Hi'')]"
    using edits_version_history [OF h1 h2 h3 h4, of "[(10, ''H''), (11, ''Hi'')]"] by blast
  then have "\<exists>st' a'. edits [(10, ''H''), (11, ''Hi'')] freshApp = Inr st' \<and> activeNote st' = Some a'
         \<and> version a' = Some 3
         \<and> historyOf a' = ['''', ''H'']
         \<and> length (historyOf a') = 2"
    by (simp add: h5 c)
  then show ?thesis using h1 h2 h3 h5 by simp
qed

section \<open>The lock fields\<close>

lemma noteList_toggleLock:
  "noteList (toggleLock st i) =
     (if passwordInput st = [] then noteList st
      else map (\<lambda>n. if note_id n = i
                     then n\<lparr>isLocked := Some (\<not> truthy (isLocked n)),
                            password := (if \<not> truthy (isLocked n)
                                         then Some (passwordInput st) else None)\<rparr>
                     else n)
               (noteList st))"
  by (simp add: toggleLock_def Let_def showStatus_def)

lemma noteList_setPassword [simp]: "noteList (setPassword pw st) = noteList st"
  by (simp add: setPassword_def)

lemma lockInv_toggled:
  "lockInv (n\<lparr>isLocked := Some (\<not> truthy (isLocked n)),
              password := (if \<not> truthy (isLocked n) then Some pw else None)\<rparr>)"
  by (simp add: lockInv_def truthy_def)

lemma toggleLock_source:
  assumes "passwordInput st \<noteq> []" and "n \<in> set (noteList (toggleLock st i))"
  shows "\<exists>m \<in> set (noteList st).
           n = (if note_id m = i
                then m\<lparr>isLocked := Some (\<not> truthy (isLocked m)),
                       password := (if \<not> truthy (isLocked m)
                                    then Some (passwordInput st) else None)\<rparr>
                else m)"
  using assms by (auto simp: noteList_toggleLock)

lemma lockInv_toggleLock:
  assumes "\<forall>n \<in> set (noteList st). lockInv n"
  shows "\<forall>n \<in> set (noteList (toggleLock st i)). lockInv n"
proof (cases "passwordInput st = []")
  case True
  then show ?thesis using assms by (simp add: noteList_toggleLock)
next
  case False
  show ?thesis
  proof
    fix n assume "n \<in> set (noteList (toggleLock st i))"
    then obtain m where m: "m \<in> set (noteList st)"
      and n: "n = (if note_id m = i
                   then m\<lparr>isLocked := Some (\<not> truthy (isLocked m)),
                          password := (if \<not> truthy (isLocked m)
                                       then Some (passwordInput st) else None)\<rparr>
                   else m)"
      using toggleLock_source [OF False] by blast
    show "lockInv n"
    proof (cases "note_id m = i")
      case True
      then show ?thesis unfolding n by (simp only: refl if_True lockInv_toggled)
    next
      case False
      then show ?thesis unfolding n using m assms by simp
    qed
  qed
qed

lemma lockInv_toggleLock_target:
  assumes "passwordInput st \<noteq> []" and "n \<in> set (noteList (toggleLock st i))"
    and "note_id n = i"
  shows "lockInv n"
proof -
  obtain m where m: "m \<in> set (noteList st)"
      and n: "n = (if note_id m = i
                   then m\<lparr>isLocked := Some (\<not> truthy (isLocked m)),
                          password := (if \<not> truthy (isLocked m)
                                       then Some (passwordInput st) else None)\<rparr>
                   else m)"
    using toggleLock_source [OF assms(1,2)] by blast
  show ?thesis
  proof (cases "note_id m = i")
    case True
    then show ?thesis unfolding n by (simp only: refl if_True lockInv_toggled)
  next
    case False
    then show ?thesis using n assms(3) by simp
  qed
qed

lemma lockInv_toggleLocks:
  assumes "\<forall>n \<in> set (noteList st). lockInv n"
  shows "\<forall>n \<in> set (noteList (toggleLocks ops st)). lockInv n"
  using assms
proof (induction ops arbitrary: st)
  case Nil
  then show ?case by simp
next
  case (Cons op ops)
  obtain pw i where op: "op = (pw, i)" by (cases op)
  have "\<forall>n \<in> set (noteList (toggleLock (setPassword pw st) i)). lockInv n"
    by (rule lockInv_toggleLock) (simp add: Cons.prems)
  then have "\<forall>n \<in> set (noteList (toggleLocks ops (toggleLock (setPassword pw st) i))). lockInv n"
    by (rule Cons.IH)
  then show ?case by (simp only: op toggleLocks.simps)
qed

text \<open>
  C5: if every note of the collection has a password exactly when it is locked (as
  every note the program creates has), then so has every note after every step of any
  run of lock toggles, whatever the candidate passwords and the ids. A toggle with
  the empty candidate is rejected: it changes the status message and nothing else,
  so \<open>isLocked\<close> and \<open>password\<close> of every note stay as they were. And after a toggle
  with a non-empty candidate the toggled note satisfies the invariant whatever it was
  before.
\<close>

theorem toggleLock_keeps_lock_invariant:
  "((\<forall>n \<in> set (noteList st). lockInv n) \<longrightarrow>
      (\<forall>k \<le> length ops. \<forall>n \<in> set (noteList (toggleLocks (take k ops) st)). lockInv n))
   \<and> toggleLock (setPassword [] st) i =
       showStatus ''Please enter a password first'' (setPassword [] st)
   \<and> noteList (toggleLock (setPassword [] st) i) = noteList st
   \<and> (pw \<noteq> [] \<longrightarrow>
        (\<forall>n \<in> set (noteList (toggleLock (setPassword pw st) i)). note_id n = i \<longrightarrow> lockInv n))
   \<and> lockInv (newNote idNow now)"
proof (intro conjI allI impI)
  fix k
  assume "\<forall>n \<in> set (noteList st). lockInv n"
  then show "\<forall>n \<in> set (noteList (toggleLocks (take k ops) st)). lockInv n"
    by (rule lockInv_toggleLocks)
next
  show "toggleLock (setPassword [] st) i = showStatus ''Please enter a password first'' (setPassword [] st)"
    by (simp add: toggleLock_def setPassword_def)
next
  show "noteList (toggleLock (setPassword [] st) i) = noteList st"
    by (simp add: noteList_toggleLock setPassword_def)
next
  assume "pw \<noteq> []"
  then have "passwordInput (setPassword pw st) \<noteq> []"
    by (simp add: setPassword_def)
  then show "\<forall>n \<in> set (noteList (toggleLock (setPassword pw st) i)). note_id n = i \<longrightarrow> lockInv n"
    using lockInv_toggleLock_target by blast
next
  show "lockInv (newNote idNow now)"
    by (simp add: lockInv_def newNote_def truthy_def)
qed

theorem toggleLock_keeps_lock_invariant_witness:
  "list_all lockInv (noteList lockedNotes)
   \<and> list_all lockInv (noteList (toggleLocks [(''x'', ''2''), ([], ''2''), (''y'', ''1'')] lockedNotes))
   \<and> list_all lockInv (noteList (toggleLocks [(''x'', ''2'')] lockedNotes))
   \<and> noteList (toggleLock (setPassword [] lockedNotes) ''1'') = noteList lockedNotes
   \<and> ''y'' \<noteq> []
   \<and> list_all lockInv (filter (\<lambda>n. note_id n = ''1'')
        (noteList (toggleLock (setPassword ''y'' lockedNotes) ''1'')))"
proof -
  let ?ops = "[(''x'', ''2''), ([], ''2''), (''y'', ''1'')]"
  have h: "\<forall>n \<in> set (noteList lockedNotes). lockInv n"
    by (simp add: lockedNotes_def lockedNote_def initApp_def sampleNote_def newNote_def
        lockInv_def truthy_def)
  have y: "''y'' \<noteq> []" by simp
  note t = toggleLock_keeps_lock_invariant [of lockedNotes ?ops "''1''" "''y''"]
  from t h have all: "\<forall>k \<le> length ?ops. \<forall>n \<in> set (noteList (toggleLocks (take k ?ops) lockedNotes)). lockInv n"
    by blast
  have k3: "\<forall>n \<in> set (noteList (toggleLocks (take 3 ?ops) lockedNotes)). lockInv n"
    using all by (rule allE [of _ 3]) simp
  have k1: "\<forall>n \<in> set (noteList (toggleLocks (take 1 ?ops) lockedNotes)). lockInv n"
    using all by (rule allE [of _ 1]) simp
  from t have rej: "noteList (toggleLock (setPassword [] lockedNotes) ''1'') = noteList lockedNotes"
    by blast
  from t y have tgt: "\<forall>n \<in> set (noteList (toggleLock (setPassword ''y'' lockedNotes) ''1'')).
                        note_id n = ''1'' \<longrightarrow> lockInv n"
    by blast
  show ?thesis
    using h k3 k1 rej tgt by (simp add: list_all_iff)
qed

text \<open>
  C9: a toggle with a non-empty candidate on a locked note sets \<open>isLocked\<close> to
  \<open>false\<close> and clears the password, whatever the stored password is: the statement
  has no premise that relates the candidate to it, and the code never compares them.
\<close>

theorem toggleLock_unlocks_unchecked:
  assumes "passwordInput st \<noteq> []" and "k < length (noteList st)"
    and "note_id (noteList st ! k) = i" and "isLocked (noteList st ! k) = Some True"
  shows "noteList (toggleLock st i) ! k = (noteList st ! k)\<lparr>isLocked := Some False, password := None\<rparr>
       \<and> isLocked (noteList (toggleLock st i) ! k) = Some False
       \<and> password (noteList (toggleLock st i) ! k) = None"
  using assms by (simp add: noteList_toggleLock truthy_def)

theorem toggleLock_unlocks_unchecked_witness:
  "passwordInput lockedNotes = ''guess''
   \<and> password (noteList lockedNotes ! 0) = Some ''pw''
   \<and> isLocked (noteList lockedNotes ! 0) = Some True
   \<and> note_id (noteList lockedNotes ! 0) = ''1''
   \<and> 0 < length (noteList lockedNotes)
   \<and> isLocked (noteList (toggleLock lockedNotes ''1'') ! 0) = Some False
   \<and> password (noteList (toggleLock lockedNotes ''1'') ! 0) = None"
proof -
  have h1: "passwordInput lockedNotes \<noteq> []" and p: "passwordInput lockedNotes = ''guess''"
    and h2: "0 < length (noteList lockedNotes)"
    and h3: "note_id (noteList lockedNotes ! 0) = ''1''"
    and h4: "isLocked (noteList lockedNotes ! 0) = Some True"
    and q: "password (noteList lockedNotes ! 0) = Some ''pw''"
    by (simp_all add: lockedNotes_def lockedNote_def initApp_def sampleNote_def newNote_def)
  show ?thesis
    using toggleLock_unlocks_unchecked [OF h1 h2 h3 h4] p q h2 h3 h4 by simp
qed

section \<open>Deleting a note\<close>

lemma filter_other_ids_nonempty:
  assumes "2 \<le> length ns" and "distinct (map note_id ns)"
  shows "filter (\<lambda>n. note_id n \<noteq> i) ns \<noteq> []"
proof (cases ns)
  case Nil
  then show ?thesis using assms(1) by simp
next
  case (Cons x xs)
  then obtain y ys where xs: "xs = y # ys" using assms(1) by (cases xs) simp_all
  have "note_id x \<noteq> note_id y" using assms(2) Cons xs by simp
  then have "note_id x \<noteq> i \<or> note_id y \<noteq> i" by auto
  then show ?thesis using Cons xs by auto
qed

lemma deleteNote_success:
  assumes "length (noteList st) \<noteq> 1" and "filter (\<lambda>n. note_id n \<noteq> i) (noteList st) = r # rs"
  shows "deleteNote st i =
           Inr (showStatus ''Note deleted'' (st\<lparr>noteList := r # rs, activeNoteId := note_id r\<rparr>))"
  using assms by (simp add: deleteNote_def)

lemma filter_removes_one:
  assumes "distinct (map f xs)" and "k < length xs" and "f (xs ! k) = i"
  shows "filter (\<lambda>n. f n \<noteq> i) xs = take k xs @ drop (Suc k) xs"
  using assms
proof (induction xs arbitrary: k)
  case Nil
  then show ?case by simp
next
  case (Cons x xs)
  show ?case
  proof (cases k)
    case 0
    then have fx: "f x = i" using Cons.prems(3) by simp
    then have "\<forall>y \<in> set xs. f y \<noteq> i" using Cons.prems(1) by (auto simp: image_iff)
    then have "filter (\<lambda>n. f n \<noteq> i) xs = xs" by (simp add: filter_id_conv)
    then show ?thesis using 0 fx by simp
  next
    case (Suc j)
    then have j: "j < length xs" and fj: "f (xs ! j) = i" using Cons.prems(2,3) by simp_all
    then have "xs ! j \<in> set xs" by simp
    then have "f x \<noteq> i" using Cons.prems(1) fj by force
    moreover have "filter (\<lambda>n. f n \<noteq> i) xs = take j xs @ drop (Suc j) xs"
      using Cons.IH [OF _ j fj] Cons.prems(1) by simp
    ultimately show ?thesis using Suc by simp
  qed
qed

text \<open>
  C3, as the specification has it, fails: \<open>deleteNote\<close> sets the active id to the
  first remaining note in every case. With three notes of which the third is active,
  deleting the second makes the first one active.
\<close>

theorem deleteNote_moves_active_pointer:
  "2 \<le> length (noteList threeNotes)
   \<and> activeNoteId threeNotes = ''3''
   \<and> deleteNote threeNotes ''2'' = Inr threeNotesAfter
   \<and> map note_id (noteList threeNotesAfter) = [''1'', ''3'']
   \<and> activeNoteId threeNotesAfter = ''1''
   \<and> activeNoteId threeNotesAfter \<noteq> activeNoteId threeNotes"
  by (simp add: threeNotes_def threeNotesAfter_def initApp_def sampleNote_def newNote_def
      titleOf_def deleteNote_def showStatus_def)

text \<open>
  C3, amended: for every collection of at least two notes with distinct ids,
  \<open>delete(id)\<close> succeeds, and afterwards the active pointer is the id of the first
  element of the remaining insertion-order collection, whether the deleted note was
  the active one or not.
\<close>

theorem deleteNote_activates_first:
  assumes "2 \<le> length (noteList st)" and "distinct (map note_id (noteList st))"
  shows "\<exists>st' r rs. deleteNote st i = Inr st'
           \<and> noteList st' = filter (\<lambda>n. note_id n \<noteq> i) (noteList st)
           \<and> noteList st' = r # rs
           \<and> activeNoteId st' = note_id r"
proof -
  obtain r rs where f: "filter (\<lambda>n. note_id n \<noteq> i) (noteList st) = r # rs"
    using filter_other_ids_nonempty [OF assms]
    by (cases "filter (\<lambda>n. note_id n \<noteq> i) (noteList st)") auto
  have "length (noteList st) \<noteq> 1" using assms(1) by simp
  from deleteNote_success [OF this f] f show ?thesis
    by (simp add: showStatus_def)
qed

theorem deleteNote_activates_first_witness:
  "2 \<le> length (noteList threeNotes)
   \<and> distinct (map note_id (noteList threeNotes))
   \<and> activeNoteId threeNotes = ''3''
   \<and> (\<exists>st' r rs. deleteNote threeNotes ''3'' = Inr st'
         \<and> noteList st' = r # rs \<and> activeNoteId st' = note_id r)"
proof -
  have h1: "2 \<le> length (noteList threeNotes)"
    and h2: "distinct (map note_id (noteList threeNotes))"
    and h3: "activeNoteId threeNotes = ''3''"
    by (simp_all add: threeNotes_def initApp_def sampleNote_def newNote_def)
  show ?thesis
    using deleteNote_activates_first [OF h1 h2, of "''3''"] h1 h2 h3 by blast
qed

text \<open>
  C4: in a collection of two or more notes with distinct ids, deleting the id of the
  note at position \<open>k\<close> succeeds and leaves the notes before and after position \<open>k\<close>,
  unchanged and in their order: one note fewer, and that note is the one with the id.
  In a collection of exactly one note the deletion is rejected: the result is the
  state with a new status message, its collection and active id as before.
\<close>

theorem deleteNote_removes_exactly:
  "(2 \<le> length (noteList st) \<and> distinct (map note_id (noteList st))
      \<and> k < length (noteList st) \<and> note_id (noteList st ! k) = i \<longrightarrow>
     (\<exists>st'. deleteNote st i = Inr st'
        \<and> noteList st' = take k (noteList st) @ drop (Suc k) (noteList st)
        \<and> noteList st' = filter (\<lambda>n. note_id n \<noteq> i) (noteList st)
        \<and> length (noteList st') = length (noteList st) - 1))
   \<and> (length (noteList st) = 1 \<longrightarrow>
        deleteNote st i = Inr (showStatus ''Cannot delete the last note'' st)
        \<and> noteList (showStatus ''Cannot delete the last note'' st) = noteList st
        \<and> activeNoteId (showStatus ''Cannot delete the last note'' st) = activeNoteId st)"
proof (intro conjI impI)
  assume h: "2 \<le> length (noteList st) \<and> distinct (map note_id (noteList st))
            \<and> k < length (noteList st) \<and> note_id (noteList st ! k) = i"
  then obtain r rs where f: "filter (\<lambda>n. note_id n \<noteq> i) (noteList st) = r # rs"
    using filter_other_ids_nonempty [of "noteList st" i]
    by (cases "filter (\<lambda>n. note_id n \<noteq> i) (noteList st)") auto
  have one: "length (noteList st) \<noteq> 1" using h by simp
  have rem: "filter (\<lambda>n. note_id n \<noteq> i) (noteList st) = take k (noteList st) @ drop (Suc k) (noteList st)"
    using h by (simp add: filter_removes_one)
  have len: "length (take k (noteList st) @ drop (Suc k) (noteList st)) = length (noteList st) - 1"
    using h by simp
  show "\<exists>st'. deleteNote st i = Inr st'
              \<and> noteList st' = take k (noteList st) @ drop (Suc k) (noteList st)
              \<and> noteList st' = filter (\<lambda>n. note_id n \<noteq> i) (noteList st)
              \<and> length (noteList st') = length (noteList st) - 1"
    using deleteNote_success [OF one f] f rem len by (simp add: showStatus_def)
next
  assume "length (noteList st) = 1"
  then show "deleteNote st i = Inr (showStatus ''Cannot delete the last note'' st)"
    by (simp add: deleteNote_def)
next
  show "noteList (showStatus ''Cannot delete the last note'' st) = noteList st"
    by (simp add: showStatus_def)
next
  show "activeNoteId (showStatus ''Cannot delete the last note'' st) = activeNoteId st"
    by (simp add: showStatus_def)
qed

theorem deleteNote_removes_exactly_witness:
  "2 \<le> length (noteList threeNotes) \<and> distinct (map note_id (noteList threeNotes))
   \<and> 1 < length (noteList threeNotes) \<and> note_id (noteList threeNotes ! 1) = ''2''
   \<and> (\<exists>st'. deleteNote threeNotes ''2'' = Inr st'
         \<and> noteList st' = [sampleNote ''1'' ''one'', sampleNote ''3'' ''three''])
   \<and> length (noteList freshApp) = 1
   \<and> deleteNote freshApp ''5'' = Inr (showStatus ''Cannot delete the last note'' freshApp)
   \<and> noteList (showStatus ''Cannot delete the last note'' freshApp) = noteList freshApp"
proof -
  have h: "2 \<le> length (noteList threeNotes) \<and> distinct (map note_id (noteList threeNotes))
             \<and> 1 < length (noteList threeNotes) \<and> note_id (noteList threeNotes ! 1) = ''2''"
    by (simp add: threeNotes_def initApp_def sampleNote_def newNote_def)
  have t: "take 1 (noteList threeNotes) @ drop (Suc 1) (noteList threeNotes) =
             [sampleNote ''1'' ''one'', sampleNote ''3'' ''three'']"
    by (simp add: threeNotes_def initApp_def)
  have one: "length (noteList freshApp) = 1"
    by (simp add: freshApp_def initApp_def)
  have a: "\<exists>st'. deleteNote threeNotes ''2'' = Inr st'
         \<and> noteList st' = [sampleNote ''1'' ''one'', sampleNote ''3'' ''three'']"
    using deleteNote_removes_exactly [of threeNotes 1 "''2''"] h unfolding t by blast
  have b: "deleteNote freshApp ''5'' = Inr (showStatus ''Cannot delete the last note'' freshApp)
         \<and> noteList (showStatus ''Cannot delete the last note'' freshApp) = noteList freshApp"
    using deleteNote_removes_exactly [of freshApp 0 "''5''"] one by blast
  show ?thesis using h one a b by blast
qed

section \<open>Operations that do not consult the lock\<close>

lemma note_id_relockNote [simp]: "note_id (relockNote lk n) = note_id n"
  by (simp add: relockNote_def)

lemma flagOf_relock:
  assumes "\<And>n. flag (relockNote lk n) = flag n"
  shows "flagOf flag i (map (relockNote lk) ns) = flagOf flag i ns"
proof -
  have "find (\<lambda>n. note_id n = i) (map (relockNote lk) ns) =
          map_option (relockNote lk) (find (\<lambda>n. note_id n = i) ns)"
    by (rule find_map_same) simp
  then show ?thesis
    by (simp add: flagOf_def assms split: option.splits)
qed

lemma archive_relock:
  "map (\<lambda>n. if note_id n = i then n\<lparr>isArchived := Some (\<not> truthy (isArchived n))\<rparr> else n)
       (map (relockNote lk) ns) =
   map (relockNote lk)
       (map (\<lambda>n. if note_id n = i then n\<lparr>isArchived := Some (\<not> truthy (isArchived n))\<rparr> else n) ns)"
  by (induction ns) (simp_all add: relockNote_def)

lemma favorite_relock:
  "map (\<lambda>n. if note_id n = i then n\<lparr>favorite := Some (\<not> truthy (favorite n))\<rparr> else n)
       (map (relockNote lk) ns) =
   map (relockNote lk)
       (map (\<lambda>n. if note_id n = i then n\<lparr>favorite := Some (\<not> truthy (favorite n))\<rparr> else n) ns)"
  by (induction ns) (simp_all add: relockNote_def)

lemma filter_relock:
  "filter (\<lambda>n. note_id n \<noteq> i) (map (relockNote lk) ns) =
   map (relockNote lk) (filter (\<lambda>n. note_id n \<noteq> i) ns)"
  by (induction ns) simp_all

lemma toggleArchive_relock:
  "toggleArchive (relock lk pw st) i = relock lk pw (toggleArchive st i)"
proof -
  have "flagOf isArchived i (map (relockNote lk) ns) = flagOf isArchived i ns" for ns
    by (rule flagOf_relock) (simp add: relockNote_def)
  then show ?thesis
    by (simp add: toggleArchive_def relock_def Let_def showStatus_def archive_relock del: map_map)
qed

lemma toggleFavorite_relock:
  "toggleFavorite (relock lk pw st) i = relock lk pw (toggleFavorite st i)"
proof -
  have "flagOf favorite i (map (relockNote lk) ns) = flagOf favorite i ns" for ns
    by (rule flagOf_relock) (simp add: relockNote_def)
  then show ?thesis
    by (simp add: toggleFavorite_def relock_def Let_def showStatus_def favorite_relock del: map_map)
qed

lemma deleteNote_relock:
  "deleteNote (relock lk pw st) i = map_sum id (relock lk pw) (deleteNote st i)"
  by (cases "filter (\<lambda>n. note_id n \<noteq> i) (noteList st)")
    (simp_all add: deleteNote_def relock_def showStatus_def filter_relock)

text \<open>
  C10: \<open>toggleArchive\<close>, \<open>toggleFavorite\<close> and \<open>deleteNote\<close> commute with any
  overwriting of the lock fields of the notes and of the candidate password: run on
  a collection with locked notes and any candidate, the empty one included, each
  does to every other field, to the active id and to the status message what it does
  on the same collection with no note locked, and \<open>deleteNote\<close> succeeds or fails
  alike. Only selecting a note consults the lock: for a locked note whose password is
  not the candidate it is rejected.
\<close>

theorem lock_gate_only_on_select:
  "toggleArchive (relock lk pw st) i = relock lk pw (toggleArchive st i)
   \<and> toggleFavorite (relock lk pw st) i = relock lk pw (toggleFavorite st i)
   \<and> deleteNote (relock lk pw st) i = map_sum id (relock lk pw) (deleteNote st i)
   \<and> (truthy (isLocked n) \<and> password n \<noteq> Some (passwordInput st) \<longrightarrow>
        selectNote st n = showStatus ''Please enter the correct password'' st)"
  by (simp add: toggleArchive_relock toggleFavorite_relock deleteNote_relock selectNote_def)

theorem lock_gate_only_on_select_witness:
  "lockedNotes = relock lockFirst ''guess'' openNotes
   \<and> toggleArchive lockedNotes ''1'' = relock lockFirst ''guess'' (toggleArchive openNotes ''1'')
   \<and> toggleFavorite lockedNotes ''1'' = relock lockFirst ''guess'' (toggleFavorite openNotes ''1'')
   \<and> deleteNote lockedNotes ''1'' = map_sum id (relock lockFirst ''guess'') (deleteNote openNotes ''1'')
   \<and> map isArchived (noteList (toggleArchive lockedNotes ''1'')) = [Some True, None]
   \<and> map favorite (noteList (toggleFavorite lockedNotes ''1'')) = [Some True, None]
   \<and> map_sum id noteList (deleteNote lockedNotes ''1'') = Inr [sampleNote ''2'' ''open'']
   \<and> truthy (isLocked lockedNote)
   \<and> password lockedNote \<noteq> Some (passwordInput lockedNotes)
   \<and> selectNote lockedNotes lockedNote = showStatus ''Please enter the correct password'' lockedNotes"
proof -
  have e: "lockedNotes = relock lockFirst ''guess'' openNotes"
    by (simp add: lockedNotes_def lockedNote_def openNotes_def relock_def relockNote_def
        lockFirst_def initApp_def sampleNote_def newNote_def)
  have l: "truthy (isLocked lockedNote) \<and> password lockedNote \<noteq> Some (passwordInput lockedNotes)"
    by (simp add: lockedNotes_def lockedNote_def initApp_def truthy_def)
  have a: "map isArchived (noteList (toggleArchive lockedNotes ''1'')) = [Some True, None]"
    by (simp add: toggleArchive_def Let_def showStatus_def lockedNotes_def lockedNote_def
        initApp_def sampleNote_def newNote_def truthy_def)
  have f: "map favorite (noteList (toggleFavorite lockedNotes ''1'')) = [Some True, None]"
    by (simp add: toggleFavorite_def Let_def showStatus_def lockedNotes_def lockedNote_def
        initApp_def sampleNote_def newNote_def truthy_def)
  have d: "map_sum id noteList (deleteNote lockedNotes ''1'') = Inr [sampleNote ''2'' ''open'']"
    by (simp add: deleteNote_def showStatus_def lockedNotes_def lockedNote_def
        initApp_def sampleNote_def newNote_def)
  note t = lock_gate_only_on_select [where lk = lockFirst and pw = "''guess''" and st = openNotes
      and i = "''1''"]
  note s = lock_gate_only_on_select [where st = lockedNotes and n = lockedNote]
  from t have t': "toggleArchive lockedNotes ''1'' = relock lockFirst ''guess'' (toggleArchive openNotes ''1'')
   \<and> toggleFavorite lockedNotes ''1'' = relock lockFirst ''guess'' (toggleFavorite openNotes ''1'')
   \<and> deleteNote lockedNotes ''1'' = map_sum id (relock lockFirst ''guess'') (deleteNote openNotes ''1'')"
    unfolding e [symmetric] by blast
  from s l have "selectNote lockedNotes lockedNote = showStatus ''Please enter the correct password'' lockedNotes"
    by blast
  then show ?thesis using e t' l a f d by blast
qed

section \<open>The filtered view\<close>

lemma set_insertBy: "set (insertBy cmp x xs) = insert x (set xs)"
  by (induction xs) auto

lemma set_sortBy: "set (sortBy cmp xs) = set xs"
  by (induction xs) (simp_all add: set_insertBy)

lemma length_insertBy: "length (insertBy cmp x xs) = Suc (length xs)"
  by (induction xs) simp_all

lemma length_sortBy: "length (sortBy cmp xs) = length xs"
  by (induction xs) (simp_all add: length_insertBy)

lemma sameLetter_map:
  "list_all2 (sameLetter lc) xs ys \<longleftrightarrow> map lc xs = map lc ys"
proof
  assume "list_all2 (sameLetter lc) xs ys"
  then show "map lc xs = map lc ys"
    by (induction rule: list_all2_induct) (simp_all add: sameLetter_def)
next
  assume "map lc xs = map lc ys"
  then show "list_all2 (sameLetter lc) xs ys"
  proof (induction xs arbitrary: ys)
    case Nil
    then show ?case by simp
  next
    case (Cons x xs)
    then obtain y ys' where "ys = y # ys'" by (cases ys) simp_all
    then show ?case using Cons by (simp add: sameLetter_def)
  qed
qed

lemma map_eq_append_split:
  assumes "map f xs = ys @ zs"
  shows "\<exists>us vs. xs = us @ vs \<and> map f us = ys \<and> map f vs = zs"
proof (intro exI conjI)
  show "xs = take (length ys) xs @ drop (length ys) xs" by simp
  show "map f (take (length ys) xs) = ys"
    using assms by (simp flip: take_map)
  show "map f (drop (length ys) xs) = zs"
    using assms by (simp flip: drop_map)
qed

lemma includes_lower:
  "str_includes (toLowerCase h t) (toLowerCase h q) \<longleftrightarrow> containsIgnoringCase h t q"
  by (simp add: str_includes_def containsIgnoringCase_def sublist_def)

lemma contains_by_letters:
  assumes t: "toLowerCase h t = map lc t" and q: "toLowerCase h q = map lc q"
  shows "containsIgnoringCase h t q \<longleftrightarrow>
           (\<exists>before run after. t = before @ run @ after \<and> list_all2 (sameLetter lc) run q)"
proof
  assume "containsIgnoringCase h t q"
  then obtain ps ss where "map lc t = ps @ map lc q @ ss"
    unfolding containsIgnoringCase_def t q by blast
  then have "\<exists>before rest. t = before @ rest \<and> map lc before = ps
                 \<and> map lc rest = map lc q @ ss"
    by (rule map_eq_append_split)
  then obtain before rest where t1: "t = before @ rest"
    and r: "map lc rest = map lc q @ ss"
    by blast
  from r have "\<exists>run after. rest = run @ after \<and> map lc run = map lc q
                 \<and> map lc after = ss"
    by (rule map_eq_append_split)
  then obtain run after where t2: "rest = run @ after" and "map lc run = map lc q"
    by blast
  then have "list_all2 (sameLetter lc) run q"
    by (simp add: sameLetter_map)
  then show "\<exists>before run after. t = before @ run @ after \<and> list_all2 (sameLetter lc) run q"
    using t1 t2 by blast
next
  assume "\<exists>before run after. t = before @ run @ after \<and> list_all2 (sameLetter lc) run q"
  then obtain before run after where "t = before @ run @ after" and "map lc run = map lc q"
    unfolding sameLetter_map by blast
  then have "map lc t = map lc before @ map lc q @ map lc after"
    by simp
  then show "containsIgnoringCase h t q"
    unfolding containsIgnoringCase_def t q by blast
qed

lemma tagMatch_iff:
  "(length sel = 0 \<or> list_all (\<lambda>tag. List.member ts tag) sel)
     \<longleftrightarrow> (set sel = {} \<or> (\<forall>tag \<in> set sel. tag \<in> set ts))"
  by (auto simp: list_all_iff)

text \<open>
  C8: over every host, a note is in the filtered view exactly when it is in the
  collection, its title or its content contains the search text without regard to
  case, and the set of selected tags is empty or every selected tag is one of the
  note's tags; so with the selected tags \<open>{A, B}\<close> every note of the view has both.
  The sort that follows the filter neither drops nor adds a note. Containment without
  regard to case is containment of the lower-cased search text in the lower-cased
  text; where the host lower-cases the two character by character, it says that a
  run of the text agrees with the search text up to the case of each character.
\<close>

theorem filteredNotes_membership:
  "(n \<in> set (filteredNotes h st) \<longleftrightarrow>
      n \<in> set (noteList st)
      \<and> (containsIgnoringCase h (title n) (searchQuery st)
           \<or> containsIgnoringCase h (content n) (searchQuery st))
      \<and> (set (selectedTags st) = {} \<or> (\<forall>tag \<in> set (selectedTags st). tag \<in> set (tags n))))
   \<and> (set (selectedTags st) = {tagA, tagB} \<and> n \<in> set (filteredNotes h st) \<longrightarrow>
        tagA \<in> set (tags n) \<and> tagB \<in> set (tags n))
   \<and> (toLowerCase h t = map lc t \<and> toLowerCase h q = map lc q \<longrightarrow>
        (containsIgnoringCase h t q \<longleftrightarrow>
           (\<exists>before run after. t = before @ run @ after \<and> list_all2 (sameLetter lc) run q)))"
proof -
  have "n \<in> set (filteredNotes h st) \<longleftrightarrow> n \<in> set (noteList st) \<and> matchesFilter h st n"
    by (simp add: filteredNotes_def set_sortBy)
  moreover have "matchesFilter h st n \<longleftrightarrow>
     (containsIgnoringCase h (title n) (searchQuery st)
          \<or> containsIgnoringCase h (content n) (searchQuery st))
     \<and> (length (selectedTags st) = 0
          \<or> list_all (\<lambda>tag. List.member (tags n) tag) (selectedTags st))"
    by (simp only: matchesFilter_def Let_def includes_lower)
  ultimately have view: "n \<in> set (filteredNotes h st) \<longleftrightarrow>
      n \<in> set (noteList st)
      \<and> (containsIgnoringCase h (title n) (searchQuery st)
           \<or> containsIgnoringCase h (content n) (searchQuery st))
      \<and> (set (selectedTags st) = {} \<or> (\<forall>tag \<in> set (selectedTags st). tag \<in> set (tags n)))"
    by (simp only: tagMatch_iff)
  have both: "set (selectedTags st) = {tagA, tagB} \<and> n \<in> set (filteredNotes h st) \<longrightarrow>
        tagA \<in> set (tags n) \<and> tagB \<in> set (tags n)"
  proof
    assume h: "set (selectedTags st) = {tagA, tagB} \<and> n \<in> set (filteredNotes h st)"
    then have "\<forall>tag \<in> {tagA, tagB}. tag \<in> set (tags n)"
      using view by auto
    then show "tagA \<in> set (tags n) \<and> tagB \<in> set (tags n)" by simp
  qed
  have letters: "toLowerCase h t = map lc t \<and> toLowerCase h q = map lc q \<longrightarrow>
        (containsIgnoringCase h t q \<longleftrightarrow>
           (\<exists>before run after. t = before @ run @ after \<and> list_all2 (sameLetter lc) run q))"
    using contains_by_letters by blast
  from view both letters show ?thesis by (intro conjI)
qed

theorem filteredNotes_membership_witness:
  "selectedTags taggedNotes = [''A'', ''B''] \<and> searchQuery taggedNotes = ''SHOP''
   \<and> map note_id (noteList taggedNotes) = [''1'', ''2'']
   \<and> map tags (noteList taggedNotes) = [[''A'', ''B''], [''A'']]
   \<and> map note_id (filteredNotes asciiHost taggedNotes) = [''1'']
   \<and> taggedNote \<in> set (filteredNotes asciiHost taggedNotes)
   \<and> taggedNote \<in> set (noteList taggedNotes)
   \<and> (containsIgnoringCase asciiHost (title taggedNote) ''SHOP''
        \<or> containsIgnoringCase asciiHost (content taggedNote) ''SHOP'')
   \<and> ''A'' \<in> set (tags taggedNote) \<and> ''B'' \<in> set (tags taggedNote)
   \<and> toLowerCase asciiHost ''Shopping List'' = map asciiLower ''Shopping List''
   \<and> toLowerCase asciiHost ''SHOP'' = map asciiLower ''SHOP''
   \<and> (\<exists>before run after. ''Shopping List'' = before @ run @ after
         \<and> list_all2 (sameLetter asciiLower) run ''SHOP'')"
proof -
  have sel: "selectedTags taggedNotes = [''A'', ''B'']" and q: "searchQuery taggedNotes = ''SHOP''"
    and ids: "map note_id (noteList taggedNotes) = [''1'', ''2'']"
    and tgs: "map tags (noteList taggedNotes) = [[''A'', ''B''], [''A'']]"
    and ttl: "title taggedNote = ''Shopping List''" and cnt: "content taggedNote = ''Shopping List''"
    by (simp_all add: taggedNotes_def taggedNote_def initApp_def sampleNote_def newNote_def
        titleOf_def)
  have view: "filteredNotes asciiHost taggedNotes = [taggedNote]"
    by code_simp
  then have m: "taggedNote \<in> set (filteredNotes asciiHost taggedNotes)" by simp
  have i: "note_id taggedNote = ''1''"
    by (simp add: taggedNote_def sampleNote_def)
  have l1: "toLowerCase asciiHost ''Shopping List'' = map asciiLower ''Shopping List''"
    and l2: "toLowerCase asciiHost ''SHOP'' = map asciiLower ''SHOP''"
    by (simp_all add: asciiHost_def asciiToLowerCase_def)
  note t = filteredNotes_membership [of taggedNote asciiHost taggedNotes "''A''" "''B''"
      "''Shopping List''" asciiLower "''SHOP''"]
  from t m
  have c: "taggedNote \<in> set (noteList taggedNotes)
     \<and> (containsIgnoringCase asciiHost (title taggedNote) (searchQuery taggedNotes)
          \<or> containsIgnoringCase asciiHost (content taggedNote) (searchQuery taggedNotes))
     \<and> (set (selectedTags taggedNotes) = {}
          \<or> (\<forall>tag \<in> set (selectedTags taggedNotes). tag \<in> set (tags taggedNote)))"
    by blast
  then have "containsIgnoringCase asciiHost ''Shopping List'' ''SHOP''"
    by (simp add: ttl cnt q)
  with t l1 l2
  have r: "\<exists>before run after. ''Shopping List'' = before @ run @ after
         \<and> list_all2 (sameLetter asciiLower) run ''SHOP''"
    by blast
  show ?thesis using c sel q ids tgs view i l1 l2 r by simp
qed

section \<open>Sorting by title\<close>

lemma sorted_insertBy:
  assumes x: "x \<in> S" and ys: "set ys \<subseteq> S"
    and tot: "\<forall>a \<in> S. \<forall>b \<in> S. cmp a b \<le> 0 \<or> cmp b a \<le> 0"
    and tr: "\<forall>a \<in> S. \<forall>b \<in> S. \<forall>c \<in> S. cmp a b \<le> 0 \<and> cmp b c \<le> 0 \<longrightarrow> cmp a c \<le> 0"
    and s: "sorted_wrt (\<lambda>a b. cmp a b \<le> 0) ys"
  shows "sorted_wrt (\<lambda>a b. cmp a b \<le> 0) (insertBy cmp x ys)"
  using ys s
proof (induction ys)
  case Nil
  then show ?case by simp
next
  case (Cons y ys)
  have y: "y \<in> S" and sub: "set ys \<subseteq> S" using Cons.prems(1) by simp_all
  have after_y: "\<forall>z \<in> set ys. cmp y z \<le> 0" and rest: "sorted_wrt (\<lambda>a b. cmp a b \<le> 0) ys"
    using Cons.prems(2) by simp_all
  show ?case
  proof (cases "cmp x y \<le> 0")
    case True
    have "\<forall>z \<in> set ys. cmp x z \<le> 0"
    proof
      fix z assume z: "z \<in> set ys"
      then have "z \<in> S" and "cmp y z \<le> 0" using sub after_y by auto
      then show "cmp x z \<le> 0" using tr x y True by blast
    qed
    then show ?thesis using True Cons.prems(2) by simp
  next
    case False
    then have "cmp y x \<le> 0" using tot x y by blast
    moreover have "sorted_wrt (\<lambda>a b. cmp a b \<le> 0) (insertBy cmp x ys)"
      by (rule Cons.IH [OF sub rest])
    ultimately show ?thesis using False after_y by (simp add: set_insertBy)
  qed
qed

lemma sorted_sortBy:
  assumes xs: "set xs \<subseteq> S"
    and tot: "\<forall>a \<in> S. \<forall>b \<in> S. cmp a b \<le> 0 \<or> cmp b a \<le> 0"
    and tr: "\<forall>a \<in> S. \<forall>b \<in> S. \<forall>c \<in> S. cmp a b \<le> 0 \<and> cmp b c \<le> 0 \<longrightarrow> cmp a c \<le> 0"
  shows "sorted_wrt (\<lambda>a b. cmp a b \<le> 0) (sortBy cmp xs)"
  using xs
proof (induction xs)
  case Nil
  then show ?case by simp
next
  case (Cons x xs)
  then have x: "x \<in> S" and sub: "set xs \<subseteq> S" by simp_all
  have "set (sortBy cmp xs) \<subseteq> S" using sub by (simp add: set_sortBy)
  then show ?case
    using sorted_insertBy [OF x _ tot tr Cons.IH [OF sub]] by simp
qed

lemma consistentOn_titles:
  assumes "consistentOn lc (map title ns)"
  shows "(\<forall>a \<in> set ns. \<forall>b \<in> set ns.
            (lc (title a) (title b) \<le> 0) = (0 \<le> lc (title b) (title a)))
       \<and> (\<forall>a \<in> set ns. \<forall>b \<in> set ns. \<forall>c \<in> set ns.
            lc (title a) (title b) \<le> 0 \<and> lc (title b) (title c) \<le> 0
            \<longrightarrow> lc (title a) (title c) \<le> 0)"
proof -
  have img: "\<And>a. a \<in> set ns \<Longrightarrow> title a \<in> set (map title ns)" by simp
  from assms have
    a: "\<forall>s \<in> set (map title ns). \<forall>t \<in> set (map title ns). (lc s t \<le> 0) = (0 \<le> lc t s)"
    and t: "\<forall>s \<in> set (map title ns). \<forall>t \<in> set (map title ns). \<forall>u \<in> set (map title ns).
              lc s t \<le> 0 \<and> lc t u \<le> 0 \<longrightarrow> lc s u \<le> 0"
    unfolding consistentOn_def by blast+
  show ?thesis
  proof (intro conjI ballI)
    fix a b assume "a \<in> set ns" and "b \<in> set ns"
    then show "(lc (title a) (title b) \<le> 0) = (0 \<le> lc (title b) (title a))"
      using a img by blast
  next
    fix a b c assume "a \<in> set ns" and "b \<in> set ns" and "c \<in> set ns"
    then show "lc (title a) (title b) \<le> 0 \<and> lc (title b) (title c) \<le> 0
            \<longrightarrow> lc (title a) (title c) \<le> 0"
      using t img by blast
  qed
qed

lemma sorted_by_title_desc:
  assumes c: "consistentOn lc (map title ns)" and sub: "set xs \<subseteq> set ns"
  shows "sorted_wrt (\<lambda>a b. lc (title a) (title b) \<le> 0) (sortBy (\<lambda>a b. lc (title a) (title b)) xs)"
proof -
  have anti: "\<forall>a \<in> set ns. \<forall>b \<in> set ns. (lc (title a) (title b) \<le> 0) = (0 \<le> lc (title b) (title a))"
    and tr: "\<forall>a \<in> set ns. \<forall>b \<in> set ns. \<forall>c \<in> set ns.
               lc (title a) (title b) \<le> 0 \<and> lc (title b) (title c) \<le> 0 \<longrightarrow> lc (title a) (title c) \<le> 0"
    using consistentOn_titles [OF c] by blast+
  have tot: "\<forall>a \<in> set ns. \<forall>b \<in> set ns. lc (title a) (title b) \<le> 0 \<or> lc (title b) (title a) \<le> 0"
  proof (intro ballI)
    fix a b assume a: "a \<in> set ns" and b: "b \<in> set ns"
    have "(lc (title b) (title a) \<le> 0) = (0 \<le> lc (title a) (title b))" using anti a b by blast
    then show "lc (title a) (title b) \<le> 0 \<or> lc (title b) (title a) \<le> 0" by linarith
  qed
  show ?thesis
    using sorted_sortBy [where cmp = "\<lambda>a b. lc (title a) (title b)", OF sub tot tr] by simp
qed

lemma sorted_by_title_asc:
  assumes c: "consistentOn lc (map title ns)" and sub: "set xs \<subseteq> set ns"
  shows "sorted_wrt (\<lambda>a b. 0 \<le> lc (title a) (title b)) (sortBy (\<lambda>a b. - lc (title a) (title b)) xs)"
proof -
  have anti: "\<forall>a \<in> set ns. \<forall>b \<in> set ns. (lc (title a) (title b) \<le> 0) = (0 \<le> lc (title b) (title a))"
    and tr: "\<forall>a \<in> set ns. \<forall>b \<in> set ns. \<forall>c \<in> set ns.
               lc (title a) (title b) \<le> 0 \<and> lc (title b) (title c) \<le> 0 \<longrightarrow> lc (title a) (title c) \<le> 0"
    using consistentOn_titles [OF c] by blast+
  have tot: "\<forall>a \<in> set ns. \<forall>b \<in> set ns.
               - lc (title a) (title b) \<le> 0 \<or> - lc (title b) (title a) \<le> 0"
  proof (intro ballI)
    fix a b assume a: "a \<in> set ns" and b: "b \<in> set ns"
    have "(lc (title a) (title b) \<le> 0) = (0 \<le> lc (title b) (title a))" using anti a b by blast
    then show "- lc (title a) (title b) \<le> 0 \<or> - lc (title b) (title a) \<le> 0" by linarith
  qed
  have tr': "\<forall>a \<in> set ns. \<forall>b \<in> set ns. \<forall>c \<in> set ns.
               - lc (title a) (title b) \<le> 0 \<and> - lc (title b) (title c) \<le> 0
               \<longrightarrow> - lc (title a) (title c) \<le> 0"
  proof (intro ballI impI)
    fix a b d assume a: "a \<in> set ns" and b: "b \<in> set ns" and d: "d \<in> set ns"
      and h: "- lc (title a) (title b) \<le> 0 \<and> - lc (title b) (title d) \<le> 0"
    have "lc (title b) (title a) \<le> 0" using anti a b h by simp
    moreover have "lc (title d) (title b) \<le> 0" using anti b d h by simp
    ultimately have "lc (title d) (title a) \<le> 0" using tr a b d by blast
    then have "0 \<le> lc (title a) (title d)" using anti a d by blast
    then show "- lc (title a) (title d) \<le> 0" by simp
  qed
  show ?thesis
    using sorted_sortBy [where cmp = "\<lambda>a b. - lc (title a) (title b)", OF sub tot tr'] by simp
qed

lemma compareNotes_title:
  assumes "sortOption st = Title"
  shows "sortDirection st = Desc \<Longrightarrow> compareNotes h st = (\<lambda>a b. localeCompare h (title a) (title b))"
    and "sortDirection st = Asc \<Longrightarrow> compareNotes h st = (\<lambda>a b. - localeCompare h (title a) (title b))"
  using assms by (simp_all add: compareNotes_def comparison_def fun_eq_iff)

text \<open>
  C2, as the specification has it, fails. The comparator negates \<open>comparison\<close>
  unless the direction is \<open>desc\<close>, and for the key \<open>title\<close> \<open>comparison\<close> is
  \<open>a.localeCompare(b)\<close>: with the direction \<open>asc\<close> the titles Banana, Apple, cherry
  come out as cherry, Banana, Apple, and it is \<open>desc\<close> that gives Apple, Banana,
  cherry. (For the key \<open>modified\<close> \<open>comparison\<close> is \<open>b - a\<close>, and \<open>asc\<close> lists the
  times 20, 10, 30 as 10, 20, 30.)
\<close>

theorem title_ascending_sorts_descending:
  "sortOption titlesExample = Title \<and> sortDirection titlesExample = Asc
   \<and> map title (noteList titlesExample) = [''Banana'', ''Apple'', ''cherry'']
   \<and> map title (filteredNotes asciiHost titlesExample) = [''cherry'', ''Banana'', ''Apple'']
   \<and> map title (filteredNotes asciiHost (titlesExample\<lparr>sortDirection := Desc\<rparr>))
       = [''Apple'', ''Banana'', ''cherry'']
   \<and> sortOption timesExample = Modified \<and> sortDirection timesExample = Asc
   \<and> map lastModified (noteList timesExample) = [20, 10, 30]
   \<and> map lastModified (filteredNotes asciiHost timesExample) = [10, 20, 30]"
proof -
  have "sortOption titlesExample = Title" and "sortDirection titlesExample = Asc"
    and "sortOption timesExample = Modified" and "sortDirection timesExample = Asc"
    by (simp_all add: titlesExample_def timesExample_def)
  moreover have "map title (noteList titlesExample) = [''Banana'', ''Apple'', ''cherry'']"
    by (simp add: titlesExample_def initApp_def sampleNote_def titleOf_def)
  moreover have "map title (filteredNotes asciiHost titlesExample) = [''cherry'', ''Banana'', ''Apple'']"
    by code_simp
  moreover have "map title (filteredNotes asciiHost (titlesExample\<lparr>sortDirection := Desc\<rparr>))
       = [''Apple'', ''Banana'', ''cherry'']"
    by code_simp
  moreover have "map lastModified (noteList timesExample) = [20, 10, 30]"
    by (simp add: timesExample_def initApp_def timedNote_def)
  moreover have "map lastModified (filteredNotes asciiHost timesExample) = [10, 20, 30]"
    by code_simp
  ultimately show ?thesis by simp
qed

text \<open>
  C2, amended: with the sort key \<open>title\<close>, and a host collation that is a consistent
  comparator on the titles of the collection, the sorted view is in ascending order
  of the locale-aware title comparison when the direction is \<open>desc\<close>, the initial
  one, and in descending order when it is \<open>asc\<close>; it holds the notes that pass the
  filter, as many as pass. In particular the notes titled Banana, Apple, cherry come
  out as Apple, Banana, cherry under \<open>desc\<close> and as cherry, Banana, Apple under
  \<open>asc\<close>. The toggle is applied uniformly: for every sort key the comparator under
  \<open>asc\<close> is the negation of the comparator under \<open>desc\<close>.
\<close>

theorem title_sort_follows_direction:
  "(sortOption st = Title \<and> consistentOn (localeCompare h) (map title (noteList st)) \<longrightarrow>
      (sortDirection st = Desc \<longrightarrow>
         sorted_wrt (\<lambda>a b. localeCompare h (title a) (title b) \<le> 0) (filteredNotes h st))
      \<and> (sortDirection st = Asc \<longrightarrow>
           sorted_wrt (\<lambda>a b. 0 \<le> localeCompare h (title a) (title b)) (filteredNotes h st)))
   \<and> set (filteredNotes h st) = set (filter (matchesFilter h st) (noteList st))
   \<and> length (filteredNotes h st) = length (filter (matchesFilter h st) (noteList st))
   \<and> compareNotes h (st\<lparr>sortDirection := Asc\<rparr>) a b
       = - compareNotes h (st\<lparr>sortDirection := Desc\<rparr>) a b
   \<and> map title (noteList titlesDesc) = [''Banana'', ''Apple'', ''cherry'']
   \<and> sortOption titlesDesc = Title \<and> sortDirection titlesDesc = Desc
   \<and> map title (filteredNotes asciiHost titlesDesc) = [''Apple'', ''Banana'', ''cherry'']
   \<and> noteList titlesExample = noteList titlesDesc
   \<and> sortOption titlesExample = Title \<and> sortDirection titlesExample = Asc
   \<and> map title (filteredNotes asciiHost titlesExample) = [''cherry'', ''Banana'', ''Apple'']"
proof -
  have sub: "set (filter (matchesFilter h st) (noteList st)) \<subseteq> set (noteList st)"
    by simp
  have sorted: "sortOption st = Title \<and> consistentOn (localeCompare h) (map title (noteList st)) \<longrightarrow>
      (sortDirection st = Desc \<longrightarrow>
         sorted_wrt (\<lambda>a b. localeCompare h (title a) (title b) \<le> 0) (filteredNotes h st))
      \<and> (sortDirection st = Asc \<longrightarrow>
           sorted_wrt (\<lambda>a b. 0 \<le> localeCompare h (title a) (title b)) (filteredNotes h st))"
  proof (intro impI conjI)
    assume h: "sortOption st = Title \<and> consistentOn (localeCompare h) (map title (noteList st))"
      and d: "sortDirection st = Desc"
    have "compareNotes h st = (\<lambda>a b. localeCompare h (title a) (title b))"
      using h d by (simp add: compareNotes_title)
    then show "sorted_wrt (\<lambda>a b. localeCompare h (title a) (title b) \<le> 0) (filteredNotes h st)"
      unfolding filteredNotes_def using h sorted_by_title_desc [OF _ sub] by simp
  next
    assume h: "sortOption st = Title \<and> consistentOn (localeCompare h) (map title (noteList st))"
      and d: "sortDirection st = Asc"
    have "compareNotes h st = (\<lambda>a b. - localeCompare h (title a) (title b))"
      using h d by (simp add: compareNotes_title)
    then show "sorted_wrt (\<lambda>a b. 0 \<le> localeCompare h (title a) (title b)) (filteredNotes h st)"
      unfolding filteredNotes_def using h sorted_by_title_asc [OF _ sub] by simp
  qed
  have same: "set (filteredNotes h st) = set (filter (matchesFilter h st) (noteList st))"
    and len: "length (filteredNotes h st) = length (filter (matchesFilter h st) (noteList st))"
    by (simp_all only: filteredNotes_def set_sortBy length_sortBy)
  have flip: "compareNotes h (st\<lparr>sortDirection := Asc\<rparr>) a b
       = - compareNotes h (st\<lparr>sortDirection := Desc\<rparr>) a b"
    by (simp add: compareNotes_def)
  have e1: "map title (noteList titlesDesc) = [''Banana'', ''Apple'', ''cherry'']"
    and e2: "sortOption titlesDesc = Title \<and> sortDirection titlesDesc = Desc"
    and e3: "noteList titlesExample = noteList titlesDesc"
    and e4: "sortOption titlesExample = Title \<and> sortDirection titlesExample = Asc"
    by (simp_all add: titlesDesc_def titlesExample_def initApp_def sampleNote_def titleOf_def)
  have e5: "map title (filteredNotes asciiHost titlesDesc) = [''Apple'', ''Banana'', ''cherry'']"
    by code_simp
  have e6: "map title (filteredNotes asciiHost titlesExample) = [''cherry'', ''Banana'', ''Apple'']"
    by code_simp
  from sorted same len flip e1 e2 e5 e3 e4 e6 show ?thesis by (intro conjI) simp_all
qed

lemma ascii_collation_of_titles:
  "localeCompare asciiHost ''Apple'' ''Apple'' = 0"
  "localeCompare asciiHost ''Banana'' ''Banana'' = 0"
  "localeCompare asciiHost ''cherry'' ''cherry'' = 0"
  "localeCompare asciiHost ''Apple'' ''Banana'' = - 1"
  "localeCompare asciiHost ''Apple'' ''cherry'' = - 1"
  "localeCompare asciiHost ''Banana'' ''cherry'' = - 1"
  "localeCompare asciiHost ''Banana'' ''Apple'' = 1"
  "localeCompare asciiHost ''cherry'' ''Apple'' = 1"
  "localeCompare asciiHost ''cherry'' ''Banana'' = 1"
  by code_simp+

lemma ascii_collation_consistent:
  "consistentOn (localeCompare asciiHost) [''Banana'', ''Apple'', ''cherry'']"
  by (simp add: consistentOn_def ascii_collation_of_titles)

theorem title_sort_follows_direction_witness:
  "sortOption titlesDesc = Title \<and> sortDirection titlesDesc = Desc
   \<and> consistentOn (localeCompare asciiHost) (map title (noteList titlesDesc))
   \<and> sorted_wrt (\<lambda>a b. localeCompare asciiHost (title a) (title b) \<le> 0)
        (filteredNotes asciiHost titlesDesc)
   \<and> sortOption titlesExample = Title \<and> sortDirection titlesExample = Asc
   \<and> consistentOn (localeCompare asciiHost) (map title (noteList titlesExample))
   \<and> sorted_wrt (\<lambda>a b. 0 \<le> localeCompare asciiHost (title a) (title b))
        (filteredNotes asciiHost titlesExample)"
proof -
  have d1: "sortOption titlesDesc = Title" and d2: "sortDirection titlesDesc = Desc"
    and a1: "sortOption titlesExample = Title" and a2: "sortDirection titlesExample = Asc"
    by (simp_all add: titlesDesc_def titlesExample_def)
  have td: "map title (noteList titlesDesc) = [''Banana'', ''Apple'', ''cherry'']"
    and ta: "map title (noteList titlesExample) = [''Banana'', ''Apple'', ''cherry'']"
    by (simp_all add: titlesDesc_def titlesExample_def initApp_def sampleNote_def titleOf_def)
  have cd: "consistentOn (localeCompare asciiHost) (map title (noteList titlesDesc))"
    unfolding td by (rule ascii_collation_consistent)
  have ca: "consistentOn (localeCompare asciiHost) (map title (noteList titlesExample))"
    unfolding ta by (rule ascii_collation_consistent)
  have sd: "sorted_wrt (\<lambda>a b. localeCompare asciiHost (title a) (title b) \<le> 0)
        (filteredNotes asciiHost titlesDesc)"
    using title_sort_follows_direction [of titlesDesc asciiHost] d1 d2 cd by blast
  have sa: "sorted_wrt (\<lambda>a b. 0 \<le> localeCompare asciiHost (title a) (title b))
        (filteredNotes asciiHost titlesExample)"
    using title_sort_follows_direction [of titlesExample asciiHost] a1 a2 ca by blast
  show ?thesis using d1 d2 cd sd a1 a2 ca sa by blast
qed

end
